theory Spec2Isabelle
  imports Main "HOL-Library.Word" "HOL-Library.Sublist"
begin

section \<open>Strings, bytes and errors\<close>

text \<open>
  A Python \<^verbatim>\<open>str\<close> is the list of its code points, so that \<open>length\<close> and slicing count
  what Python counts; \<^verbatim>\<open>bytes\<close> is a list of 8-bit words. A literal of the source is
  written \<open>lit ''...''\<close>. Exceptions of the source are values of \<open>error\<close>.
\<close>

type_synonym pystr = "nat list"
type_synonym bytes = "8 word list"

definition lit :: "string \<Rightarrow> pystr" where
  "lit s = map of_char s"

datatype error = UnicodeEncodeError | RequestException | OSError | ParserError

text \<open>
  \<^verbatim>\<open>str.encode('utf-8')\<close>: one to four bytes per code point; a surrogate
  (U+D800 to U+DFFF) raises \<^verbatim>\<open>UnicodeEncodeError\<close>. A number from 0x110000 on is no
  code point of a Python string and is refused as well.
\<close>

definition utf8_char :: "nat \<Rightarrow> bytes option" where
  "utf8_char c =
     (if c < 0x80 then Some [of_nat c]
      else if c < 0x800 then
        Some [of_nat (0xC0 + c div 0x40), of_nat (0x80 + c mod 0x40)]
      else if 0xD800 \<le> c \<and> c \<le> 0xDFFF then None
      else if c < 0x10000 then
        Some [of_nat (0xE0 + c div 0x1000), of_nat (0x80 + c div 0x40 mod 0x40),
              of_nat (0x80 + c mod 0x40)]
      else if c < 0x110000 then
        Some [of_nat (0xF0 + c div 0x40000), of_nat (0x80 + c div 0x1000 mod 0x40),
              of_nat (0x80 + c div 0x40 mod 0x40), of_nat (0x80 + c mod 0x40)]
      else None)"

fun encode_utf8 :: "pystr \<Rightarrow> error + bytes" where
  "encode_utf8 [] = Inr []"
| "encode_utf8 (c # cs) =
     (case utf8_char c of
        None \<Rightarrow> Inl UnicodeEncodeError
      | Some bs \<Rightarrow>
          (case encode_utf8 cs of
             Inl e \<Rightarrow> Inl e
           | Inr rest \<Rightarrow> Inr (bs @ rest)))"

section \<open>NewsItem\<close>

text \<open>
  The dataclass \<^verbatim>\<open>NewsItem\<close>. \<^verbatim>\<open>news_id\<close> is declared \<^verbatim>\<open>field(default="", init=False)\<close>:
  the generated constructor sets it to the empty string and then runs
  \<^verbatim>\<open>__post_init__\<close>. \<^verbatim>\<open>hashlib.md5(content).hexdigest()\<close> belongs to the standard library and
  is the parameter \<open>md5_hexdigest\<close>.
\<close>

record news_item =
  title :: pystr
  summary :: pystr
  link :: pystr
  image_url :: "pystr option"
  author :: "pystr option"
  published_date :: "pystr option"
  news_id :: pystr

definition post_init :: "(bytes \<Rightarrow> pystr) \<Rightarrow> news_item \<Rightarrow> error + news_item" where
  "post_init md5_hexdigest self =
     (if news_id self = [] then
        (case encode_utf8 (title self @ lit ''|'' @ link self) of
           Inl e \<Rightarrow> Inl e
         | Inr content \<Rightarrow> Inr (self\<lparr>news_id := md5_hexdigest content\<rparr>))
      else Inr self)"

definition NewsItem ::
  "(bytes \<Rightarrow> pystr) \<Rightarrow> pystr \<Rightarrow> pystr \<Rightarrow> pystr \<Rightarrow> pystr option \<Rightarrow> pystr option \<Rightarrow>
   pystr option \<Rightarrow> error + news_item" where
  "NewsItem md5_hexdigest t s l i a d =
     post_init md5_hexdigest
       \<lparr>title = t, summary = s, link = l, image_url = i, author = a,
        published_date = d, news_id = []\<rparr>"


section \<open>NewsHistory\<close>

text \<open>
  \<^verbatim>\<open>news_ids\<close> is a Python set of strings. The order in which \<^verbatim>\<open>list(a_set)\<close> yields the
  elements is not fixed by the elements (it depends on the hash seed of the process and on
  the history of the set object), so it is the parameter \<open>list_of\<close>: any function that
  enumerates a set without repetition is an admissible order.
\<close>

record news_history =
  limit :: int
  news_ids :: "pystr set"

definition enumerates :: "('a set \<Rightarrow> 'a list) \<Rightarrow> 'a set \<Rightarrow> bool" where
  "enumerates list_of S = (set (list_of S) = S \<and> distinct (list_of S))"

text \<open>The slices \<^verbatim>\<open>xs[i:]\<close> and \<^verbatim>\<open>xs[:i]\<close>: a negative index counts from the end.\<close>

definition slice_from :: "int \<Rightarrow> 'a list \<Rightarrow> 'a list" where
  "slice_from i xs =
     (if i < 0 then drop (nat (int (length xs) + i)) xs else drop (nat i) xs)"

definition slice_to :: "int \<Rightarrow> 'a list \<Rightarrow> 'a list" where
  "slice_to i xs =
     (if i < 0 then take (nat (int (length xs) + i)) xs else take (nat i) xs)"

text \<open>
  \<^verbatim>\<open>save_history\<close>. The set is trimmed in memory before the file is opened; \<open>io_ok\<close> says
  whether opening and writing the file succeeded (a failure is logged and swallowed).
  The second component is the \<^verbatim>\<open>news_ids\<close> array written to the history file, if any.
\<close>

definition save_history ::
  "(pystr set \<Rightarrow> pystr list) \<Rightarrow> bool \<Rightarrow> news_history \<Rightarrow> news_history \<times> pystr list option" where
  "save_history list_of io_ok self =
     (let news_ids_list = list_of (news_ids self);
          self' =
            (if int (length news_ids_list) > limit self
             then self\<lparr>news_ids := set (slice_from (- limit self) news_ids_list)\<rparr>
             else self)
      in (self', if io_ok then Some (list_of (news_ids self')) else None))"

definition is_duplicate :: "news_history \<Rightarrow> news_item \<Rightarrow> bool" where
  "is_duplicate self news_item = (news_id news_item \<in> news_ids self)"

definition add_item :: "news_history \<Rightarrow> news_item \<Rightarrow> news_history" where
  "add_item self news_item = self\<lparr>news_ids := insert (news_id news_item) (news_ids self)\<rparr>"

text \<open>Two iteration orders of the subsets of \<open>{a, b}\<close>, as two processes may have them.\<close>

definition order_ab :: "pystr set \<Rightarrow> pystr list" where
  "order_ab S = filter (\<lambda>x. x \<in> S) [lit ''a'', lit ''b'']"

definition order_ba :: "pystr set \<Rightarrow> pystr list" where
  "order_ba S = filter (\<lambda>x. x \<in> S) [lit ''b'', lit ''a'']"

section \<open>Extraction of one article (the loop body of fetch\_gaming\_news)\<close>

text \<open>
  The HTML parser and its CSS selector engine are a library. An element is seen through
  what the code reads of it: \<^verbatim>\<open>get_text(strip=True)\<close> and the attribute dictionary. A
  parsed fragment (or document) is seen through \<^verbatim>\<open>select_one\<close>: the first element that
  matches a selector, or \<^verbatim>\<open>None\<close>. An element object is always true in a condition, so
  \<^verbatim>\<open>if title_tag:\<close> asks whether the selector matched.
\<close>

record tag =
  get_text :: pystr
  attrs :: "pystr \<Rightarrow> pystr option"

type_synonym fragment = "pystr \<Rightarrow> tag option"

definition BASE_URL :: pystr where
  "BASE_URL = lit ''https://vandal.elespanol.com''"

definition startswith_http :: "pystr \<Rightarrow> bool" where
  "startswith_http s = (prefix (lit ''http://'') s \<or> prefix (lit ''https://'') s)"

text \<open>
  The loop \<^verbatim>\<open>for selector in selectors: tag = article.select_one(selector); if tag: break\<close>,
  together with the \<^verbatim>\<open>tag = None\<close> before it.
\<close>

fun select_first :: "fragment \<Rightarrow> pystr list \<Rightarrow> tag option" where
  "select_first article [] = None"
| "select_first article (selector # selectors) =
     (case article selector of
        Some t \<Rightarrow> Some t
      | None \<Rightarrow> select_first article selectors)"

definition title_selectors :: "pystr list" where
  "title_selectors =
     [lit ''h2.titular a'', lit ''h2 a'', lit ''h1 a'', lit ''h3 a'', lit ''.title a'',
      lit ''a.title'', lit ''a[title]'']"

definition summary_selectors :: "pystr list" where
  "summary_selectors =
     [lit ''p.texto'', lit ''p.description'', lit ''.summary'', lit ''.excerpt'',
      lit ''p:not(.meta)'', lit ''p'']"

definition image_selectors :: "pystr list" where
  "image_selectors = [lit ''img'', lit ''.image img'', lit ''.thumbnail img'', lit ''figure img'']"

definition image_attrs :: "pystr list" where
  "image_attrs = [lit ''src'', lit ''data-src'', lit ''data-lazy-src'', lit ''data-srcset'']"

definition author_selectors :: "pystr list" where
  "author_selectors = [lit ''.autor'', lit ''.author'', lit ''.meta .author'', lit ''span.author'']"

definition date_selectors :: "pystr list" where
  "date_selectors =
     [lit ''.fecha'', lit ''.date'', lit ''.meta .date'', lit ''time'', lit ''span.date'']"

definition extract_summary :: "fragment \<Rightarrow> pystr" where
  "extract_summary article =
     (case select_first article summary_selectors of
        Some summary_tag \<Rightarrow> get_text summary_tag
      | None \<Rightarrow> lit ''Sin resumen disponible'')"

definition extract_link :: "tag \<Rightarrow> pystr" where
  "extract_link title_tag =
     (let link = (case attrs title_tag (lit ''href'') of Some href \<Rightarrow> href | None \<Rightarrow> [])
      in if link \<noteq> [] \<and> \<not> startswith_http link then BASE_URL @ link else link)"

text \<open>
  The first attribute of the chain that the element has; of a value with a space in it,
  \<^verbatim>\<open>split(' ')[0]\<close>, the part before the first space.
\<close>

fun first_image_attr :: "tag \<Rightarrow> pystr list \<Rightarrow> pystr option" where
  "first_image_attr image_tag [] = None"
| "first_image_attr image_tag (attr # rest) =
     (case attrs image_tag attr of
        Some v \<Rightarrow> Some (if 32 \<in> set v then takeWhile (\<lambda>c. c \<noteq> 32) v else v)
      | None \<Rightarrow> first_image_attr image_tag rest)"

definition extract_image_url :: "fragment \<Rightarrow> pystr option" where
  "extract_image_url article =
     (let image_url =
            (case select_first article image_selectors of
               Some image_tag \<Rightarrow> first_image_attr image_tag image_attrs
             | None \<Rightarrow> None)
      in case image_url of
           Some u \<Rightarrow> if u \<noteq> [] \<and> \<not> startswith_http u then Some (BASE_URL @ u) else Some u
         | None \<Rightarrow> None)"

definition extract_author :: "fragment \<Rightarrow> pystr option" where
  "extract_author article = map_option get_text (select_first article author_selectors)"

definition extract_published_date :: "fragment \<Rightarrow> pystr option" where
  "extract_published_date article = map_option get_text (select_first article date_selectors)"

text \<open>
  One pass of \<^verbatim>\<open>for article in articles\<close>: \<open>None\<close> when the fragment adds no record
  (no title element, an empty title or link, or an exception, which is logged and skipped).
\<close>

definition process_article :: "(bytes \<Rightarrow> pystr) \<Rightarrow> fragment \<Rightarrow> news_item option" where
  "process_article md5_hexdigest article =
     (case select_first article title_selectors of
        None \<Rightarrow> None
      | Some title_tag \<Rightarrow>
          (let title = get_text title_tag;
               summary = extract_summary article;
               link = extract_link title_tag;
               image_url = extract_image_url article;
               author = extract_author article;
               published_date = extract_published_date article
           in if title \<noteq> [] \<and> link \<noteq> [] then
                (case NewsItem md5_hexdigest title summary link image_url author published_date of
                   Inl e \<Rightarrow> None
                 | Inr news_item \<Rightarrow> Some news_item)
              else None))"

text \<open>
  \<^verbatim>\<open>fetch_gaming_news\<close>: \<open>listing page\<close> is what the request, the parser and the search
  for article blocks give for a page (an exception, or the fragments in document order).
\<close>

definition fetch_gaming_news ::
  "(bytes \<Rightarrow> pystr) \<Rightarrow> (int \<Rightarrow> error + fragment list) \<Rightarrow> int \<Rightarrow> news_item list" where
  "fetch_gaming_news md5_hexdigest listing page =
     (case listing page of
        Inl e \<Rightarrow> []
      | Inr articles \<Rightarrow> List.map_filter (process_article md5_hexdigest) articles)"

section \<open>fetch\_article\_details\<close>

text \<open>
  \<open>http_get\<close> is the request with \<^verbatim>\<open>raise_for_status\<close> (the body, or the exception),
  \<open>write_debug\<close> the write of the debug snapshot, \<open>parse\<close> the HTML parser. The record is
  updated in place, field by field, inside one \<^verbatim>\<open>try\<close>.
\<close>

definition meta_description :: pystr where
  "meta_description = lit ''meta[name='' @ [34] @ lit ''description'' @ [34] @ lit '']''"

definition meta_og_image :: pystr where
  "meta_og_image = lit ''meta[property='' @ [34] @ lit ''og:image'' @ [34] @ lit '']''"

definition detail_summary_selectors :: "pystr list" where
  "detail_summary_selectors =
     [lit ''div.entradilla'', lit ''.article-summary'', lit ''.summary'', lit ''.intro'',
      lit ''.excerpt'', meta_description]"

definition detail_image_selectors :: "pystr list" where
  "detail_image_selectors =
     [lit ''div.imagen img'', lit ''.article-featured-image img'', lit ''.featured-image img'',
      lit ''article img'', lit ''.content img'', meta_og_image]"

fun detail_summary :: "fragment \<Rightarrow> pystr list \<Rightarrow> news_item \<Rightarrow> news_item" where
  "detail_summary soup [] news_item = news_item"
| "detail_summary soup (selector # rest) news_item =
     (case soup selector of
        Some full_summary_tag \<Rightarrow>
          (if selector = meta_description then
             news_item\<lparr>summary :=
               (case attrs full_summary_tag (lit ''content'') of Some c \<Rightarrow> c | None \<Rightarrow> [])\<rparr>
           else news_item\<lparr>summary := get_text full_summary_tag\<rparr>)
      | None \<Rightarrow> detail_summary soup rest news_item)"

definition absolute_image :: "news_item \<Rightarrow> news_item" where
  "absolute_image news_item =
     (case image_url news_item of
        Some u \<Rightarrow>
          if u \<noteq> [] \<and> \<not> startswith_http u then news_item\<lparr>image_url := Some (BASE_URL @ u)\<rparr>
          else news_item
      | None \<Rightarrow> news_item)"

fun detail_image :: "fragment \<Rightarrow> pystr list \<Rightarrow> news_item \<Rightarrow> news_item" where
  "detail_image soup [] news_item = news_item"
| "detail_image soup (selector # rest) news_item =
     (case soup selector of
        Some main_image \<Rightarrow>
          absolute_image
            (if selector = meta_og_image then
               news_item\<lparr>image_url :=
                 Some (case attrs main_image (lit ''content'') of Some c \<Rightarrow> c | None \<Rightarrow> [])\<rparr>
             else
               (case attrs main_image (lit ''data-src'') of
                  Some v \<Rightarrow> news_item\<lparr>image_url := Some v\<rparr>
                | None \<Rightarrow>
                    (case attrs main_image (lit ''src'') of
                       Some v \<Rightarrow> news_item\<lparr>image_url := Some v\<rparr>
                     | None \<Rightarrow> news_item)))
      | None \<Rightarrow> detail_image soup rest news_item)"

definition fetch_article_details ::
  "(pystr \<Rightarrow> error + pystr) \<Rightarrow> (pystr \<Rightarrow> pystr \<Rightarrow> error + unit) \<Rightarrow> (pystr \<Rightarrow> error + fragment) \<Rightarrow>
   news_item \<Rightarrow> news_item" where
  "fetch_article_details http_get write_debug parse news_item =
     (if link news_item = [] then news_item
      else
        (case http_get (link news_item) of
           Inl e \<Rightarrow> news_item
         | Inr response_text \<Rightarrow>
             (case write_debug
                     (lit ''debug_article_'' @ slice_to 8 (news_id news_item) @ lit ''.html'')
                     response_text of
                Inl e \<Rightarrow> news_item
              | Inr u \<Rightarrow>
                  (case parse response_text of
                     Inl e \<Rightarrow> news_item
                   | Inr soup \<Rightarrow>
                       (let news_item = detail_summary soup detail_summary_selectors news_item
                        in if image_url news_item = None \<or> image_url news_item = Some []
                           then detail_image soup detail_image_selectors news_item
                           else news_item)))))"

section \<open>get\_unique\_news\<close>

record config =
  news_count :: int
  description_length :: int

record scraper =
  config :: config
  history :: news_history

text \<open>
  The inner \<^verbatim>\<open>for news_item in all_news\<close>, with its \<^verbatim>\<open>break\<close>.
\<close>

fun scan_page ::
  "news_history \<Rightarrow> int \<Rightarrow> news_item list \<Rightarrow> news_item list \<times> news_item list \<Rightarrow>
   news_item list \<times> news_item list" where
  "scan_page h count [] (new_news, duplicate_news) = (new_news, duplicate_news)"
| "scan_page h count (news_item # rest) (new_news, duplicate_news) =
     (if int (length new_news) \<ge> count then (new_news, duplicate_news)
      else if is_duplicate h news_item
        then scan_page h count rest (new_news, duplicate_news @ [news_item])
        else scan_page h count rest (new_news @ [news_item], duplicate_news))"

definition max_pages :: int where
  "max_pages = 5"

text \<open>
  The outer \<^verbatim>\<open>while\<close>. \<open>fetch page\<close> is the result of \<^verbatim>\<open>self.fetch_gaming_news(page)\<close>; the
  loop asks for every page at most once. When the target is met after a page the page
  number stays, and the loop condition ends the loop.
\<close>

function collect_pages ::
  "(int \<Rightarrow> news_item list) \<Rightarrow> news_history \<Rightarrow> int \<Rightarrow> news_item list \<Rightarrow> news_item list \<Rightarrow> int \<Rightarrow>
   news_item list \<times> news_item list" where
  "collect_pages fetch h count new_news duplicate_news current_page =
     (if int (length new_news) < count \<and> current_page \<le> max_pages then
        (let all_news = fetch current_page in
         if all_news = [] then
           collect_pages fetch h count new_news duplicate_news (current_page + 1)
         else
           (case scan_page h count all_news (new_news, duplicate_news) of
              (new_news', duplicate_news') \<Rightarrow>
                if int (length new_news') < count
                then collect_pages fetch h count new_news' duplicate_news' (current_page + 1)
                else collect_pages fetch h count new_news' duplicate_news' current_page))
      else (new_news, duplicate_news))"
  by pat_completeness auto
termination
  by (relation "measure (\<lambda>(fetch, h, count, new_news, duplicate_news, current_page).
        if int (length new_news) < count \<and> current_page \<le> max_pages
        then nat (max_pages + 2 - current_page) else 0)")
     (auto simp: max_pages_def)

declare collect_pages.simps [simp del]

text \<open>
  The method returns the pair of lists; the third component is the history object of the
  scraper when the method returns.
\<close>

definition get_unique_news ::
  "(int \<Rightarrow> news_item list) \<Rightarrow> scraper \<Rightarrow> int option \<Rightarrow>
   (news_item list \<times> news_item list) \<times> news_history" where
  "get_unique_news fetch self count =
     (let count = (case count of None \<Rightarrow> news_count (config self) | Some c \<Rightarrow> c)
      in (collect_pages fetch (history self) count [] [] 1, history self))"

text \<open>
  The loop of \<^verbatim>\<open>main\<close> over the new records: enrich, keep, and add the identifier to the
  history unless it is there.
\<close>

fun detail_all ::
  "(news_item \<Rightarrow> news_item) \<Rightarrow> news_history \<Rightarrow> news_item list \<Rightarrow> news_item list \<times> news_history" where
  "detail_all details h [] = ([], h)"
| "detail_all details h (item # rest) =
     (let detailed_item = details item;
          h' = (if \<not> is_duplicate h detailed_item then add_item h detailed_item else h)
      in case detail_all details h' rest of
           (detailed_news, h'') \<Rightarrow> (detailed_item # detailed_news, h''))"

section \<open>ContentGenerator\<close>

definition format_description :: "config \<Rightarrow> news_item \<Rightarrow> pystr" where
  "format_description cfg news_item =
     (let description = slice_to (description_length cfg) (summary news_item)
      in if int (length (summary news_item)) > description_length cfg
         then description @ lit ''...'' else description)"

text \<open>\<^verbatim>\<open>str(n)\<close> of an integer: its decimal digits, after a minus sign when it is negative.\<close>

fun digits :: "nat \<Rightarrow> pystr" where
  "digits n = (if n < 10 then [48 + n] else digits (n div 10) @ [48 + n mod 10])"

declare digits.simps [simp del]

definition str_int :: "int \<Rightarrow> pystr" where
  "str_int i = (if i < 0 then 45 # digits (nat (- i)) else digits (nat i))"

text \<open>
  The file system: a path is the list of its components below the working directory, and
  the state maps the paths that exist to a directory or to a file with its content. The
  JSON text of the records stands for itself: \<open>Json\<close> is the complete text, \<open>JsonPrefix\<close>
  the text cut where a string could not be encoded. The calls are modelled where the
  operating system carries them out (its own failures, such as permissions or a full
  disk, are not part of the state); what the program decides is in the model: a text file
  is opened with \<^verbatim>\<open>encoding='utf-8'\<close>, and a write of a string that cannot be encoded raises
  \<^verbatim>\<open>UnicodeEncodeError\<close>. \<open>date_str\<close> is one component, as \<^verbatim>\<open>strftime('%Y-%m-%d')\<close> gives it.
\<close>

datatype file_content =
  Json "news_item list" | JsonPrefix "news_item list" | Text pystr | Binary bytes

datatype node = Dir | File file_content

type_synonym path = "pystr list"

type_synonym filesystem = "path \<Rightarrow> node option"

definition CONTENT_DIR :: path where
  "CONTENT_DIR = [lit ''gaming_news_output'', lit ''contenido'']"

text \<open>\<^verbatim>\<open>Path.mkdir(parents=True, exist_ok=True)\<close>: the path and its missing ancestors.\<close>

definition mkdir_parents :: "filesystem \<Rightarrow> path \<Rightarrow> filesystem" where
  "mkdir_parents fs p = (\<lambda>q. if q \<noteq> [] \<and> prefix q p \<and> fs q = None then Some Dir else fs q)"

text \<open>A file opened with \<^verbatim>\<open>'wb'\<close> takes the bytes as they are.\<close>

definition write_file :: "filesystem \<Rightarrow> path \<Rightarrow> file_content \<Rightarrow> filesystem" where
  "write_file fs p c = fs(p \<mapsto> File c)"

definition encodable :: "pystr \<Rightarrow> bool" where
  "encodable s = (case encode_utf8 s of Inl e \<Rightarrow> False | Inr bs \<Rightarrow> True)"

text \<open>
  \<^verbatim>\<open>with open(p, 'w', encoding='utf-8') as f\<close> followed by one \<^verbatim>\<open>f.write\<close> per chunk: the
  file is created empty, every chunk is encoded as a whole when it is written, and the
  first chunk that cannot be encoded raises; the file is closed with what was written
  before it.
\<close>

definition write_text :: "filesystem \<Rightarrow> path \<Rightarrow> pystr list \<Rightarrow> filesystem \<times> error option" where
  "write_text fs p chunks =
     (fs(p \<mapsto> File (Text (concat (takeWhile encodable chunks)))),
      if list_all encodable chunks then None else Some UnicodeEncodeError)"

text \<open>
  \<^verbatim>\<open>json.dump([asdict(item) for item in news_items], f, ensure_ascii=False, indent=2)\<close>:
  the strings of the records are written as they are (only quotes, backslashes and control
  characters are escaped), in the order of the fields.
\<close>

definition item_strings :: "news_item \<Rightarrow> pystr list" where
  "item_strings item =
     [title item, summary item, link item] @
     (case image_url item of None \<Rightarrow> [] | Some u \<Rightarrow> [u]) @
     (case author item of None \<Rightarrow> [] | Some a \<Rightarrow> [a]) @
     (case published_date item of None \<Rightarrow> [] | Some d \<Rightarrow> [d]) @
     [news_id item]"

definition write_json ::
  "filesystem \<Rightarrow> path \<Rightarrow> news_item list \<Rightarrow> filesystem \<times> error option" where
  "write_json fs p news_items =
     (if list_all (\<lambda>item. list_all encodable (item_strings item)) news_items
      then (fs(p \<mapsto> File (Json news_items)), None)
      else (fs(p \<mapsto> File (JsonPrefix news_items)), Some UnicodeEncodeError))"


text \<open>
  \<^verbatim>\<open>download_image\<close>. \<open>http_content\<close> is the request for the image (the bytes, or the
  exception, which is logged); \<open>lower\<close> is \<^verbatim>\<open>str.lower\<close> and \<open>strip_symbols\<close> is
  \<^verbatim>\<open>re.sub(r'[^\w\s-]', '', _)\<close>, both of the standard library.
\<close>

definition image_ext_of :: "(pystr \<Rightarrow> pystr) \<Rightarrow> pystr \<Rightarrow> pystr" where
  "image_ext_of lower url =
     (let image_ext = takeWhile (\<lambda>c. c \<noteq> 63) (rev (takeWhile (\<lambda>c. c \<noteq> 46) (rev url)))
      in if lower image_ext \<notin> set [lit ''jpg'', lit ''jpeg'', lit ''png'', lit ''gif'']
         then lit ''jpg'' else image_ext)"

definition download_image ::
  "(pystr \<Rightarrow> error + bytes) \<Rightarrow> (pystr \<Rightarrow> pystr) \<Rightarrow> (pystr \<Rightarrow> pystr) \<Rightarrow> news_item \<Rightarrow> path \<Rightarrow>
   filesystem \<Rightarrow> filesystem \<times> path option" where
  "download_image http_content lower strip_symbols news_item output_dir fs =
     (case image_url news_item of
        None \<Rightarrow> (fs, None)
      | Some url \<Rightarrow>
          if url = [] then (fs, None)
          else
            (case http_content url of
               Inl e \<Rightarrow> (fs, None)
             | Inr content \<Rightarrow>
                 (let image_ext = image_ext_of lower url;
                      safe_title =
                        take 50 (map (\<lambda>c. if c = 32 then 95 else c)
                                   (strip_symbols (title news_item)));
                      image_filename =
                        output_dir @ [lit ''image_'' @ safe_title @ lit ''.'' @ image_ext]
                  in (write_file fs image_filename (Binary content), Some image_filename))))"

text \<open>
  The loop \<^verbatim>\<open>while date_dir.exists()\<close>, entered with the directory of the date and
  version 1. It ends at the first name that is not in use; that it reaches one, for every
  finite state, is proved below.
\<close>

definition versioned_dir :: "pystr \<Rightarrow> int \<Rightarrow> path" where
  "versioned_dir date_str version = CONTENT_DIR @ [date_str @ lit ''_V'' @ str_int version]"

partial_function (option) probe_date_dir ::
  "filesystem \<Rightarrow> pystr \<Rightarrow> path \<Rightarrow> int \<Rightarrow> path option" where
  "probe_date_dir fs date_str date_dir version =
     (if fs date_dir \<noteq> None
      then probe_date_dir fs date_str (versioned_dir date_str version) (version + 1)
      else Some date_dir)"

definition news_dir_of :: "path \<Rightarrow> nat \<Rightarrow> path" where
  "news_dir_of date_dir i = date_dir @ [lit ''noticia_'' @ str_int (int i + 1)]"

text \<open>The two strings written to \<^verbatim>\<open>description.txt\<close>, one \<^verbatim>\<open>f.write\<close> each.\<close>

definition description_chunks :: "config \<Rightarrow> news_item \<Rightarrow> pystr list" where
  "description_chunks cfg news_item =
     [lit ''T'' @ [237] @ lit ''tulo: '' @ title news_item @ [10, 10],
      lit ''Descripci'' @ [243] @ lit ''n: '' @ format_description cfg news_item]"

text \<open>
  One pass of \<^verbatim>\<open>for i, (news_item, caption) in enumerate(zip(news_items, captions))\<close>: the
  state it leaves, and the exception that ends it, if any. The function has no
  \<^verbatim>\<open>try\<close>: an exception of a write ends \<^verbatim>\<open>save_content\<close>. \<^verbatim>\<open>download_image\<close> catches
  its own.
\<close>

definition save_item ::
  "(pystr \<Rightarrow> error + bytes) \<Rightarrow> (pystr \<Rightarrow> pystr) \<Rightarrow> (pystr \<Rightarrow> pystr) \<Rightarrow> config \<Rightarrow> path \<Rightarrow>
   nat \<times> news_item \<times> pystr \<Rightarrow> filesystem \<Rightarrow> filesystem \<times> error option" where
  "save_item http_content lower strip_symbols cfg date_dir entry fs =
     (case entry of
        (i, news_item, caption) \<Rightarrow>
          (let news_dir = news_dir_of date_dir i;
               fs = mkdir_parents fs news_dir
           in case write_text fs (news_dir @ [lit ''caption.txt'']) [caption] of
                (fs, Some e) \<Rightarrow> (fs, Some e)
              | (fs, None) \<Rightarrow>
                  (case write_text fs (news_dir @ [lit ''description.txt''])
                          (description_chunks cfg news_item) of
                     (fs, Some e) \<Rightarrow> (fs, Some e)
                   | (fs, None) \<Rightarrow>
                       (fst (download_image http_content lower strip_symbols news_item
                               news_dir fs),
                        None))))"

fun save_items ::
  "(pystr \<Rightarrow> error + bytes) \<Rightarrow> (pystr \<Rightarrow> pystr) \<Rightarrow> (pystr \<Rightarrow> pystr) \<Rightarrow> config \<Rightarrow> path \<Rightarrow>
   (nat \<times> news_item \<times> pystr) list \<Rightarrow> filesystem \<Rightarrow> filesystem \<times> error option" where
  "save_items http_content lower strip_symbols cfg date_dir [] fs = (fs, None)"
| "save_items http_content lower strip_symbols cfg date_dir (entry # rest) fs =
     (case save_item http_content lower strip_symbols cfg date_dir entry fs of
        (fs, Some e) \<Rightarrow> (fs, Some e)
      | (fs, None) \<Rightarrow> save_items http_content lower strip_symbols cfg date_dir rest fs)"

text \<open>The strings written to \<^verbatim>\<open>all_captions.txt\<close>, one \<^verbatim>\<open>f.write\<close> per caption.\<close>

definition caption_blocks :: "pystr list \<Rightarrow> pystr list" where
  "caption_blocks captions =
     map (\<lambda>(i, caption).
            lit ''=== CAPTION '' @ str_int (int i + 1) @ lit '' ==='' @ [10] @
            caption @ [10, 10])
         (enumerate 0 captions)"

text \<open>
  \<^verbatim>\<open>save_content\<close>: the state it leaves, the directory it made, and either the exception
  that ended it or the pair it returns (the path of the captions file and the directory);
  \<open>None\<close> when the search for a directory does not end.
\<close>

definition save_content ::
  "(pystr \<Rightarrow> error + bytes) \<Rightarrow> (pystr \<Rightarrow> pystr) \<Rightarrow> (pystr \<Rightarrow> pystr) \<Rightarrow> config \<Rightarrow>
   news_item list \<Rightarrow> pystr list \<Rightarrow> pystr \<Rightarrow> filesystem \<Rightarrow>
   (filesystem \<times> path \<times> (error + path \<times> path)) option" where
  "save_content http_content lower strip_symbols cfg news_items captions date_str fs =
     (case probe_date_dir fs date_str (CONTENT_DIR @ [date_str]) 1 of
        None \<Rightarrow> None
      | Some date_dir \<Rightarrow>
          (let fs = mkdir_parents fs date_dir
           in case write_json fs (date_dir @ [lit ''news.json'']) news_items of
                (fs, Some e) \<Rightarrow> Some (fs, date_dir, Inl e)
              | (fs, None) \<Rightarrow>
                  (case save_items http_content lower strip_symbols cfg date_dir
                          (enumerate 0 (zip news_items captions)) fs of
                     (fs, Some e) \<Rightarrow> Some (fs, date_dir, Inl e)
                   | (fs, None) \<Rightarrow>
                       (let all_captions_filename = date_dir @ [lit ''all_captions.txt'']
                        in case write_text fs all_captions_filename
                                  (caption_blocks captions) of
                             (fs, Some e) \<Rightarrow> Some (fs, date_dir, Inl e)
                           | (fs, None) \<Rightarrow>
                               Some (fs, date_dir, Inr (all_captions_filename, date_dir))))))"

section \<open>Inputs used in the examples\<close>

definition item_A :: news_item where
  "item_A = \<lparr>title = lit ''A'', summary = [], link = lit ''https://a'', image_url = None,
     author = None, published_date = None, news_id = lit ''id-a''\<rparr>"

definition item_B :: news_item where
  "item_B = \<lparr>title = lit ''B'', summary = [], link = lit ''https://b'', image_url = None,
     author = None, published_date = None, news_id = lit ''id-b''\<rparr>"


definition scraper_seen_A :: scraper where
  "scraper_seen_A =
     \<lparr>config = \<lparr>news_count = 5, description_length = 200\<rparr>,
      history = \<lparr>limit = 500, news_ids = {lit ''id-a''}\<rparr>\<rparr>"

definition scraper_fresh :: scraper where
  "scraper_fresh =
     \<lparr>config = \<lparr>news_count = 5, description_length = 200\<rparr>,
      history = \<lparr>limit = 500, news_ids = {}\<rparr>\<rparr>"

definition page_AB :: "int \<Rightarrow> news_item list" where
  "page_AB page = (if page = 1 then [item_A, item_B] else [])"

definition page_AA :: "int \<Rightarrow> news_item list" where
  "page_AA page = (if page = 1 then [item_A, item_A] else [])"

definition page_BA :: "int \<Rightarrow> news_item list" where
  "page_BA page = (if page = 1 then [item_B, item_A] else [])"


text \<open>
  A fragment as the parser sees
  \<^verbatim>\<open><article><h2><a href="/n">T</a></h2><p class="texto"></p><p class="description">S</p>\<close>
  \<^verbatim>\<open><span class="autor"></span><span class="author">Ann</span><span class="fecha"></span>\<close>
  \<^verbatim>\<open><img data-src="/i.png 2x"></article>\<close>.
\<close>

definition article_empty_first :: fragment where
  "article_empty_first selector =
     (if selector = lit ''h2 a'' then
        Some \<lparr>get_text = lit ''T'', attrs = [lit ''href'' \<mapsto> lit ''/n'']\<rparr>
      else if selector \<in> set [lit ''p.texto'', lit ''p:not(.meta)'', lit ''p''] then
        Some \<lparr>get_text = [], attrs = Map.empty\<rparr>
      else if selector = lit ''p.description'' then
        Some \<lparr>get_text = lit ''S'', attrs = Map.empty\<rparr>
      else if selector = lit ''.autor'' then
        Some \<lparr>get_text = [], attrs = Map.empty\<rparr>
      else if selector \<in> set [lit ''.author'', lit ''span.author''] then
        Some \<lparr>get_text = lit ''Ann'', attrs = Map.empty\<rparr>
      else if selector = lit ''.fecha'' then
        Some \<lparr>get_text = [], attrs = Map.empty\<rparr>
      else if selector = lit ''img'' then
        Some \<lparr>get_text = [], attrs = [lit ''data-src'' \<mapsto> lit ''/i.png 2x'']\<rparr>
      else None)"

text \<open>
  The extractor as the specification words it: the text of the first locator of the chain
  whose element has a text that is not empty. It is compared with the code below.
\<close>

fun spec_first_nonempty :: "fragment \<Rightarrow> pystr list \<Rightarrow> pystr option" where
  "spec_first_nonempty article [] = None"
| "spec_first_nonempty article (selector # rest) =
     (case article selector of
        Some t \<Rightarrow> if get_text t \<noteq> [] then Some (get_text t) else spec_first_nonempty article rest
      | None \<Rightarrow> spec_first_nonempty article rest)"

section \<open>The records the collector looks at\<close>

text \<open>
  \<open>scanned h k xs\<close> is the part of the record sequence \<open>xs\<close> that is looked at when \<open>k\<close>
  new records are still wanted: the shortest prefix that holds \<open>k\<close> records whose
  identifier is not in the history, or all of \<open>xs\<close>. It is used to state and prove the
  properties of the collector, not to define it.
\<close>

fun scanned :: "news_history \<Rightarrow> nat \<Rightarrow> news_item list \<Rightarrow> news_item list" where
  "scanned h k [] = []"
| "scanned h k (x # xs) =
     (if k = 0 then []
      else if is_duplicate h x then x # scanned h k xs
      else x # scanned h (k - 1) xs)"

section \<open>Properties of the article identifier\<close>

text \<open>
  C1. The outcome of constructing a record, read at its identifier, is the digest of the
  UTF-8 bytes of title, the separator \<^verbatim>\<open>|\<close> and link (or the encoding error of that
  string), and it is the same for any two constructions that agree on title and link,
  whatever their summary, image URL, author and date are.
\<close>

theorem news_id_function_of_title_link:
  "map_sum id news_id (NewsItem md5_hexdigest t s l i a d) =
     map_sum id md5_hexdigest (encode_utf8 (t @ lit ''|'' @ l)) \<and>
   map_sum id news_id (NewsItem md5_hexdigest t s l i a d) =
     map_sum id news_id (NewsItem md5_hexdigest t s' l i' a' d')"
  by (simp add: NewsItem_def post_init_def split: sum.splits)

section \<open>Properties of the quota collector\<close>

lemma scanned_0: "scanned h 0 xs = []"
  by (cases xs) auto

lemma scan_page_scanned:
  "scan_page h c xs (new, dup) =
     (new @ filter (\<lambda>x. \<not> is_duplicate h x) (scanned h (nat (c - int (length new))) xs),
      dup @ filter (is_duplicate h) (scanned h (nat (c - int (length new))) xs))"
proof (induction xs arbitrary: new dup)
  case Nil
  then show ?case by simp
next
  case (Cons x xs)
  show ?case
  proof (cases "int (length new) \<ge> c")
    case True
    then show ?thesis by simp
  next
    case False
    then have k: "nat (c - int (length new)) \<noteq> 0" by simp
    have k1: "nat (c - int (length (new @ [x]))) = nat (c - int (length new)) - 1" by simp
    show ?thesis
      using False k Cons.IH[of new "dup @ [x]"] Cons.IH[of "new @ [x]" dup]
      by (simp add: k1 del: length_append)
  qed
qed

lemma scanned_append:
  "scanned h k (xs @ ys) =
     scanned h k xs @ scanned h (k - length (filter (\<lambda>x. \<not> is_duplicate h x) (scanned h k xs))) ys"
  by (induction xs arbitrary: k) (auto simp: scanned_0)

lemma scanned_new_le: "length (filter (\<lambda>x. \<not> is_duplicate h x) (scanned h k xs)) \<le> k"
proof (induction xs arbitrary: k)
  case Nil
  then show ?case by simp
next
  case (Cons x xs)
  show ?case
    using Cons.IH[of k] Cons.IH[of "k - 1"] by (cases k) auto
qed

lemma scanned_prefix: "\<exists>s. xs = scanned h k xs @ s"
  by (induction xs arbitrary: k) auto

lemma scanned_stop:
  "scanned h k xs = xs \<or>
   (length (filter (\<lambda>x. \<not> is_duplicate h x) (scanned h k xs)) = k \<and>
    (scanned h k xs = [] \<or> \<not> is_duplicate h (last (scanned h k xs))))"
proof (induction xs arbitrary: k)
  case Nil
  then show ?case by simp
next
  case (Cons x xs)
  show ?case
  proof (cases "k = 0")
    case True
    then show ?thesis by simp
  next
    case False
    show ?thesis
    proof (cases "is_duplicate h x")
      case True
      with False Cons.IH[of k] show ?thesis by auto
    next
      case nd: False
      with False Cons.IH[of "k - 1"] show ?thesis by (auto simp: scanned_0)
    qed
  qed
qed

lemma scanned_take:
  "filter (\<lambda>x. \<not> is_duplicate h x) (scanned h k xs) = take k (filter (\<lambda>x. \<not> is_duplicate h x) xs)"
proof (induction xs arbitrary: k)
  case Nil
  then show ?case by simp
next
  case (Cons x xs)
  then show ?case by (cases k) auto
qed

lemma collect_pages_done:
  "\<not> (int (length new) < count \<and> page \<le> max_pages) \<Longrightarrow>
   collect_pages fetch h count new dup page = (new, dup)"
  by (subst collect_pages.simps) (simp only: if_False)

lemma collect_pages_scanned:
  "collect_pages fetch h c new dup page =
     (new @ filter (\<lambda>x. \<not> is_duplicate h x)
               (scanned h (nat (c - int (length new))) (concat (map fetch [page..max_pages]))),
      dup @ filter (is_duplicate h)
               (scanned h (nat (c - int (length new))) (concat (map fetch [page..max_pages]))))"
proof (induction fetch h c new dup page rule: collect_pages.induct)
  case (1 fetch h count new dup page)
  let ?k = "nat (count - int (length new))"
  show ?case
  proof (cases "int (length new) < count \<and> page \<le> max_pages")
    case False
    then have "?k = 0 \<or> [page..max_pages] = []" by auto
    moreover have "collect_pages fetch h count new dup page = (new, dup)"
      using False by (rule collect_pages_done)
    ultimately show ?thesis by (auto simp: scanned_0)
  next
    case True
    then have up: "[page..max_pages] = page # [page + 1..max_pages]"
      by (simp add: upto_rec1)
    show ?thesis
    proof (cases "fetch page = []")
      case e: True
      have "collect_pages fetch h count new dup page =
            collect_pages fetch h count new dup (page + 1)"
        using True e by (subst collect_pages.simps) simp
      then show ?thesis using "1.IH"(1)[OF True refl e] e up by simp
    next
      case ne: False
      obtain new' dup' where sp: "scan_page h count (fetch page) (new, dup) = (new', dup')"
        by (cases "scan_page h count (fetch page) (new, dup)")
      have new': "new' = new @ filter (\<lambda>x. \<not> is_duplicate h x) (scanned h ?k (fetch page))"
        and dup': "dup' = dup @ filter (is_duplicate h) (scanned h ?k (fetch page))"
        using sp by (simp_all add: scan_page_scanned)
      have k': "nat (count - int (length new')) =
                ?k - length (filter (\<lambda>x. \<not> is_duplicate h x) (scanned h ?k (fetch page)))"
        by (simp add: new')
      have rhs: "scanned h ?k (concat (map fetch [page..max_pages])) =
                 scanned h ?k (fetch page) @
                 scanned h (nat (count - int (length new'))) (concat (map fetch [page + 1..max_pages]))"
        by (simp add: up scanned_append k')
      show ?thesis
      proof (cases "int (length new') < count")
        case lt: True
        have "collect_pages fetch h count new dup page =
              collect_pages fetch h count new' dup' (page + 1)"
          using True ne sp lt by (subst collect_pages.simps) simp
        also have "\<dots> = (new' @ filter (\<lambda>x. \<not> is_duplicate h x)
               (scanned h (nat (count - int (length new'))) (concat (map fetch [page + 1..max_pages]))),
            dup' @ filter (is_duplicate h)
               (scanned h (nat (count - int (length new'))) (concat (map fetch [page + 1..max_pages]))))"
          using "1.IH"(2)[OF True refl ne sp[symmetric] lt] .
        finally show ?thesis
          unfolding rhs by (simp add: new' dup')
      next
        case ge: False
        have "collect_pages fetch h count new dup page =
              collect_pages fetch h count new' dup' page"
          using True ne sp ge by (subst collect_pages.simps) simp
        also have "\<dots> = (new', dup')"
          using ge by (subst collect_pages.simps) simp
        finally show ?thesis
          unfolding rhs using ge by (simp add: scanned_0) (simp add: new' dup')
      qed
    qed
  qed
qed


lemma scanned_reached:
  "length (filter (\<lambda>x. \<not> is_duplicate h x) (scanned h k xs)) = k \<Longrightarrow>
   scanned h k xs = [] \<or> \<not> is_duplicate h (last (scanned h k xs))"
proof (induction xs arbitrary: k)
  case Nil
  then show ?case by simp
next
  case (Cons x xs)
  show ?case
  proof (cases "k = 0")
    case True
    then show ?thesis by simp
  next
    case False
    show ?thesis
    proof (cases "is_duplicate h x")
      case True
      then have "length (filter (\<lambda>x. \<not> is_duplicate h x) (scanned h k xs)) = k"
        using Cons.prems False by simp
      then have "scanned h k xs = [] \<or> \<not> is_duplicate h (last (scanned h k xs))"
        by (rule Cons.IH)
      moreover have "scanned h k xs \<noteq> []"
        using \<open>length (filter (\<lambda>x. \<not> is_duplicate h x) (scanned h k xs)) = k\<close> False by auto
      ultimately show ?thesis using True False by simp
    next
      case nd: False
      then have "length (filter (\<lambda>x. \<not> is_duplicate h x) (scanned h (k - 1) xs)) = k - 1"
        using Cons.prems False by simp
      then have "scanned h (k - 1) xs = [] \<or> \<not> is_duplicate h (last (scanned h (k - 1) xs))"
        by (rule Cons.IH)
      then show ?thesis using nd False by auto
    qed
  qed
qed

lemma scanned_unique:
  "prefix p xs \<Longrightarrow> length (filter (\<lambda>x. \<not> is_duplicate h x) p) \<le> k \<Longrightarrow>
   (length (filter (\<lambda>x. \<not> is_duplicate h x) p) < k \<longrightarrow> p = xs) \<Longrightarrow>
   (length (filter (\<lambda>x. \<not> is_duplicate h x) p) = k \<longrightarrow> p = [] \<or> \<not> is_duplicate h (last p)) \<Longrightarrow>
   p = scanned h k xs"
proof (induction xs arbitrary: p k)
  case Nil
  then show ?case by simp
next
  case (Cons x xs)
  show ?case
  proof (cases "k = 0")
    case True
    have "p = []"
    proof (rule ccontr)
      assume ne: "p \<noteq> []"
      then have "\<not> is_duplicate h (last p)" using Cons.prems(2,4) True by simp
      then have "filter (\<lambda>x. \<not> is_duplicate h x) p \<noteq> []"
        using ne by (metis (mono_tags, lifting) filter_empty_conv last_in_set)
      then show False using Cons.prems(2) True by simp
    qed
    then show ?thesis using True by simp
  next
    case False
    have "p \<noteq> []" using Cons.prems(3) False by auto
    then obtain p' where p: "p = x # p'" and pre: "prefix p' xs"
      using Cons.prems(1) by (cases p) auto
    show ?thesis
    proof (cases "is_duplicate h x")
      case True
      have "p' = scanned h k xs"
      proof (rule Cons.IH[OF pre])
        show "length (filter (\<lambda>x. \<not> is_duplicate h x) p') \<le> k"
          using Cons.prems(2) p True by simp
        show "length (filter (\<lambda>x. \<not> is_duplicate h x) p') < k \<longrightarrow> p' = xs"
          using Cons.prems(3) p True by simp
        show "length (filter (\<lambda>x. \<not> is_duplicate h x) p') = k \<longrightarrow>
              p' = [] \<or> \<not> is_duplicate h (last p')"
          using Cons.prems(4) p True by (cases "p' = []") auto
      qed
      then show ?thesis using p True False by simp
    next
      case nd: False
      have "p' = scanned h (k - 1) xs"
      proof (rule Cons.IH[OF pre])
        show "length (filter (\<lambda>x. \<not> is_duplicate h x) p') \<le> k - 1"
          using Cons.prems(2) p nd by simp
        show "length (filter (\<lambda>x. \<not> is_duplicate h x) p') < k - 1 \<longrightarrow> p' = xs"
          using Cons.prems(3) p nd by auto
        show "length (filter (\<lambda>x. \<not> is_duplicate h x) p') = k - 1 \<longrightarrow>
              p' = [] \<or> \<not> is_duplicate h (last p')"
          using Cons.prems(4) p nd False by (cases "p' = []") auto
      qed
      then show ?thesis using p nd False by simp
    qed
  qed
qed

text \<open>
  C2. With \<open>target\<close> the given count, or the configured count when none is given, the
  collector returns exactly this: of the records of pages 1 to 5 taken in page order it
  looks at the prefix \<open>p = scanned h (nat target) all\<close>; the new list is the records of
  \<open>p\<close> whose identifier is not in the history and the duplicate list the records of \<open>p\<close>
  whose identifier is, both in the order of \<open>p\<close>. The new list is never longer than the
  target. \<open>p\<close> is everything when the new list stays below the target; when the new list
  reaches the target, \<open>p\<close> ends with the new record that reached it (and is empty for a
  target of 0), so nothing after that record is looked at. No other prefix has these
  properties.
\<close>

theorem get_unique_news_partitions:
  "let h = history self;
       target = (case count_opt of None \<Rightarrow> news_count (config self) | Some c \<Rightarrow> c);
       all = concat (map fetch [1..max_pages]);
       new_in = (\<lambda>p. filter (\<lambda>x. \<not> is_duplicate h x) p);
       p = scanned h (nat target) all
   in fst (get_unique_news fetch self count_opt) = (new_in p, filter (is_duplicate h) p) \<and>
      prefix p all \<and>
      length (new_in p) \<le> nat target \<and>
      (length (new_in p) < nat target \<longrightarrow> p = all) \<and>
      (length (new_in p) = nat target \<longrightarrow> p = [] \<or> \<not> is_duplicate h (last p)) \<and>
      (\<forall>q. prefix q all \<and> length (new_in q) \<le> nat target \<and>
           (length (new_in q) < nat target \<longrightarrow> q = all) \<and>
           (length (new_in q) = nat target \<longrightarrow> q = [] \<or> \<not> is_duplicate h (last q))
           \<longrightarrow> q = p)"
proof -
  let ?h = "history self"
  let ?target = "case count_opt of None \<Rightarrow> news_count (config self) | Some c \<Rightarrow> c"
  let ?all = "concat (map fetch [1..max_pages])"
  let ?p = "scanned ?h (nat ?target) ?all"
  let ?new = "filter (\<lambda>x. \<not> is_duplicate ?h x)"
  have res: "fst (get_unique_news fetch self count_opt) = (?new ?p, filter (is_duplicate ?h) ?p)"
    by (simp add: get_unique_news_def Let_def collect_pages_scanned)
  have pre: "prefix ?p ?all"
    using scanned_prefix[of ?all ?h "nat ?target"] unfolding prefix_def by blast
  have le: "length (?new ?p) \<le> nat ?target"
    by (rule scanned_new_le)
  have below: "length (?new ?p) < nat ?target \<longrightarrow> ?p = ?all"
    using scanned_stop[of ?h "nat ?target" ?all] by linarith
  have reached: "length (?new ?p) = nat ?target \<longrightarrow> ?p = [] \<or> \<not> is_duplicate ?h (last ?p)"
    using scanned_reached[of ?h "nat ?target" ?all] by blast
  have uniq: "\<forall>q. prefix q ?all \<and> length (?new q) \<le> nat ?target \<and>
           (length (?new q) < nat ?target \<longrightarrow> q = ?all) \<and>
           (length (?new q) = nat ?target \<longrightarrow> q = [] \<or> \<not> is_duplicate ?h (last q))
           \<longrightarrow> q = ?p"
  proof (intro allI impI)
    fix q
    assume q: "prefix q ?all \<and> length (?new q) \<le> nat ?target \<and>
           (length (?new q) < nat ?target \<longrightarrow> q = ?all) \<and>
           (length (?new q) = nat ?target \<longrightarrow> q = [] \<or> \<not> is_duplicate ?h (last q))"
    show "q = ?p"
      by (rule scanned_unique) (use q in blast)+
  qed
  show ?thesis
    unfolding Let_def
    by (rule conjI[OF res conjI[OF pre conjI[OF le conjI[OF below conjI[OF reached uniq]]]]])
qed

theorem get_unique_news_partitions_witness:
  "fst (get_unique_news page_AB scraper_seen_A (Some 1)) = ([item_B], [item_A]) \<and>
   fst (get_unique_news page_BA scraper_seen_A (Some 1)) = ([item_B], []) \<and>
   fst (get_unique_news page_AB scraper_seen_A None) = ([item_B], [item_A]) \<and>
   fst (get_unique_news page_AB scraper_seen_A (Some 0)) = ([], [])"
proof -
  have dup: "is_duplicate (history scraper_seen_A) item_A" "\<not> is_duplicate (history scraper_seen_A) item_B"
    by (simp_all add: is_duplicate_def scraper_seen_A_def item_A_def item_B_def lit_def)
  have ab: "concat (map page_AB [1..max_pages]) = [item_A, item_B]"
    by code_simp
  have ba: "concat (map page_BA [1..max_pages]) = [item_B, item_A]"
    by code_simp
  have cnt: "news_count (config scraper_seen_A) = 5" by (simp add: scraper_seen_A_def)
  note result = get_unique_news_partitions[unfolded Let_def, THEN conjunct1]
  have 1: "fst (get_unique_news page_AB scraper_seen_A (Some 1)) = ([item_B], [item_A])"
    using result[of page_AB scraper_seen_A "Some 1"] dup by (simp add: ab)
  have 2: "fst (get_unique_news page_BA scraper_seen_A (Some 1)) = ([item_B], [])"
    using result[of page_BA scraper_seen_A "Some 1"] dup by (simp add: ba)
  have 3: "fst (get_unique_news page_AB scraper_seen_A None) = ([item_B], [item_A])"
    using result[of page_AB scraper_seen_A None] dup by (simp add: ab cnt eval_nat_numeral)
  have 4: "fst (get_unique_news page_AB scraper_seen_A (Some 0)) = ([], [])"
    using result[of page_AB scraper_seen_A "Some 0"] by (simp add: ab)
  show ?thesis using 1 2 3 4 by simp
qed



section \<open>Enrichment keeps the identifier\<close>

lemma detail_summary_news_id: "news_id (detail_summary soup sels item) = news_id item"
  by (induction sels) (auto split: option.splits)

lemma absolute_image_news_id: "news_id (absolute_image item) = news_id item"
  by (simp add: absolute_image_def split: option.splits)

lemma detail_image_news_id: "news_id (detail_image soup sels item) = news_id item"
  by (induction sels) (auto simp: absolute_image_news_id split: option.splits)

lemma fetch_article_details_news_id:
  "news_id (fetch_article_details http_get write_debug parse item) = news_id item"
  by (simp add: fetch_article_details_def Let_def detail_summary_news_id detail_image_news_id
      split: sum.splits)

lemma detail_all_news_ids:
  assumes id: "\<And>x. news_id (details x) = news_id x"
  shows "news_ids (snd (detail_all details h items)) = news_ids h \<union> news_id ` set items \<and>
         fst (detail_all details h items) = map details items"
proof (induction items arbitrary: h)
  case Nil
  then show ?case by simp
next
  case (Cons item rest)
  let ?h' = "if \<not> is_duplicate h (details item) then add_item h (details item) else h"
  have h': "news_ids ?h' = insert (news_id item) (news_ids h)"
    using id[of item] by (auto simp: is_duplicate_def add_item_def)
  have "detail_all details h (item # rest) =
        (details item # fst (detail_all details ?h' rest), snd (detail_all details ?h' rest))"
    by (simp add: Let_def split_beta)
  then show ?case
    using Cons.IH[of ?h'] h' by auto
qed

text \<open>
  C9 (as amended). Collecting leaves the history as it was, and the new list is the first
  records, up to the target, of those on pages 1 to 5 whose identifier is not in the
  history, repetitions kept: a record that occurs twice before the target is reached is
  taken twice, and when the pages hold no more such records than the target, every
  occurrence of every one of them is in the new list. The identifiers enter the history in
  the loop of \<^verbatim>\<open>main\<close> that enriches the new records.
\<close>

theorem quota_phase_keeps_history:
  "snd (get_unique_news fetch self count_opt) = history self \<and>
   fst (fst (get_unique_news fetch self count_opt)) =
     take (nat (case count_opt of None \<Rightarrow> news_count (config self) | Some c \<Rightarrow> c))
       (filter (\<lambda>x. \<not> is_duplicate (history self) x) (concat (map fetch [1..max_pages]))) \<and>
   (int (length (filter (\<lambda>x. \<not> is_duplicate (history self) x)
                   (concat (map fetch [1..max_pages]))))
      \<le> (case count_opt of None \<Rightarrow> news_count (config self) | Some c \<Rightarrow> c) \<longrightarrow>
    fst (fst (get_unique_news fetch self count_opt)) =
      filter (\<lambda>x. \<not> is_duplicate (history self) x) (concat (map fetch [1..max_pages]))) \<and>
   news_ids (snd (detail_all (fetch_article_details http_get write_debug parse) h items)) =
     news_ids h \<union> news_id ` set items"
proof -
  have "news_ids (snd (detail_all (fetch_article_details http_get write_debug parse) h items)) =
     news_ids h \<union> news_id ` set items"
    using detail_all_news_ids[of "fetch_article_details http_get write_debug parse" h items]
    by (simp add: fetch_article_details_news_id)
  then show ?thesis
    by (simp add: get_unique_news_def Let_def collect_pages_scanned scanned_take
        split: option.splits)
qed

theorem quota_phase_keeps_history_witness:
  "get_unique_news page_AA scraper_fresh (Some 2) = (([item_A, item_A], []), history scraper_fresh)"
proof -
  have all: "concat (map page_AA [1..max_pages]) = [item_A, item_A]"
    by code_simp
  have unseen: "filter (\<lambda>x. \<not> is_duplicate (history scraper_fresh) x) [item_A, item_A] = [item_A, item_A]"
    by (simp add: is_duplicate_def scraper_fresh_def)
  have "fst (fst (get_unique_news page_AA scraper_fresh (Some 2))) = [item_A, item_A]"
    and "snd (get_unique_news page_AA scraper_fresh (Some 2)) = history scraper_fresh"
    using quota_phase_keeps_history[of page_AA scraper_fresh "Some 2"] all unseen by simp_all
  moreover have "snd (fst (get_unique_news page_AA scraper_fresh (Some 2))) = []"
    by code_simp
  ultimately show ?thesis
    by (metis prod.collapse)
qed

text \<open>
  C9 as stated fails: with target 1 and a first page that holds the new record A twice,
  the second occurrence is not appended, because the collector stops at the target.
\<close>

theorem second_occurrence_after_target_is_dropped:
  "page_AA 1 = [item_A, item_A] \<and> \<not> is_duplicate (history scraper_fresh) item_A \<and>
   get_unique_news page_AA scraper_fresh (Some 1) = (([item_A], []), history scraper_fresh)"
proof -
  have "get_unique_news page_AA scraper_fresh (Some 1) = (([item_A], []), history scraper_fresh)"
    by code_simp
  then show ?thesis
    by (simp add: page_AA_def is_duplicate_def scraper_fresh_def)
qed


section \<open>Properties of the history\<close>

lemma enumerates_length:
  "enumerates list_of S \<Longrightarrow> length (list_of S) = card S"
  by (metis distinct_card enumerates_def)

lemma save_history_bound:
  assumes e: "enumerates list_of (news_ids h)" and pos: "0 < limit h"
  shows "int (card (news_ids (fst (save_history list_of ok h)))) \<le> limit h \<and>
         (limit h < int (card (news_ids h)) \<longrightarrow>
            int (card (news_ids (fst (save_history list_of ok h)))) = limit h \<and>
            news_ids (fst (save_history list_of ok h)) \<subseteq> news_ids h)"
proof -
  let ?xs = "list_of (news_ids h)"
  have len: "length ?xs = card (news_ids h)" using e by (rule enumerates_length)
  have d: "distinct ?xs" and s: "set ?xs = news_ids h" using e by (auto simp: enumerates_def)
  show ?thesis
  proof (cases "limit h < int (length ?xs)")
    case False
    then show ?thesis using len by (simp add: save_history_def Let_def)
  next
    case True
    let ?ys = "slice_from (- limit h) ?xs"
    have ys: "?ys = drop (length ?xs - nat (limit h)) ?xs"
      using pos True by (simp add: slice_from_def nat_diff_distrib')
    have "distinct ?ys" using d ys by simp
    then have "card (set ?ys) = length ?ys" by (rule distinct_card)
    also have "\<dots> = nat (limit h)" using ys True pos by simp
    finally have c: "int (card (set ?ys)) = limit h" using pos by simp
    have sub: "set ?ys \<subseteq> news_ids h" using ys s set_drop_subset by metis
    show ?thesis using True c sub len by (simp add: save_history_def Let_def)
  qed
qed

text \<open>
  C4. With a limit of 0 and one identifier in the set, the slice \<^verbatim>\<open>news_ids_list[-0:]\<close> is the
  whole list: the save keeps and writes one identifier, more than the limit. For a positive
  limit the bound holds (\<open>save_history_bound\<close>).
\<close>

theorem save_history_limit_zero_keeps_everything:
  "enumerates order_ab {lit ''a''} \<and>
   save_history order_ab True \<lparr>limit = 0, news_ids = {lit ''a''}\<rparr> =
     (\<lparr>limit = 0, news_ids = {lit ''a''}\<rparr>, Some [lit ''a''])"
  by (simp add: save_history_def order_ab_def slice_from_def lit_def enumerates_def)

text \<open>
  C7. Two admissible iteration orders of the same set \<open>{a, b}\<close> with limit 1: one save
  keeps \<open>b\<close>, the other keeps \<open>a\<close>. What is kept is not a function of the set.
\<close>

theorem save_history_depends_on_iteration_order:
  "enumerates order_ab {lit ''a'', lit ''b''} \<and> enumerates order_ba {lit ''a'', lit ''b''} \<and>
   news_ids (fst (save_history order_ab True \<lparr>limit = 1, news_ids = {lit ''a'', lit ''b''}\<rparr>)) = {lit ''b''} \<and>
   news_ids (fst (save_history order_ba True \<lparr>limit = 1, news_ids = {lit ''a'', lit ''b''}\<rparr>)) = {lit ''a''}"
  by (simp add: save_history_def order_ab_def order_ba_def slice_from_def lit_def enumerates_def)
     auto

section \<open>Properties of the enricher\<close>

text \<open>
  C6. When the request fails, or the write of the debug snapshot fails, or the parser
  fails, the record that \<^verbatim>\<open>fetch_article_details\<close> returns is its argument, every field
  as it was.
\<close>

theorem details_failure_leaves_record:
  "(\<exists>e. http_get (link item) = Inl e) \<or>
   (\<exists>t e. http_get (link item) = Inr t \<and>
      (write_debug (lit ''debug_article_'' @ slice_to 8 (news_id item) @ lit ''.html'') t = Inl e \<or>
       parse t = Inl e)) \<Longrightarrow>
   fetch_article_details http_get write_debug parse item = item"
  by (auto simp: fetch_article_details_def split: sum.splits)

theorem details_failure_leaves_record_witness:
  "fetch_article_details (\<lambda>url. Inl RequestException) (\<lambda>name text. Inr ()) (\<lambda>text. Inr (\<lambda>s. None)) item_A = item_A \<and>
   fetch_article_details (\<lambda>url. Inr []) (\<lambda>name text. Inl OSError) (\<lambda>text. Inr (\<lambda>s. None)) item_A = item_A \<and>
   fetch_article_details (\<lambda>url. Inr []) (\<lambda>name text. Inr ()) (\<lambda>text. Inl ParserError) item_A = item_A"
proof -
  have 1: "fetch_article_details (\<lambda>url. Inl RequestException) (\<lambda>name text. Inr ()) (\<lambda>text. Inr (\<lambda>s. None)) item_A = item_A"
    by (rule details_failure_leaves_record) simp
  have 2: "fetch_article_details (\<lambda>url. Inr []) (\<lambda>name text. Inl OSError) (\<lambda>text. Inr (\<lambda>s. None)) item_A = item_A"
    by (rule details_failure_leaves_record) simp
  have 3: "fetch_article_details (\<lambda>url. Inr []) (\<lambda>name text. Inr ()) (\<lambda>text. Inl ParserError) item_A = item_A"
    by (rule details_failure_leaves_record) simp
  show ?thesis using 1 2 3 by simp
qed

section \<open>Properties of the field extractor\<close>

lemma select_first_None: "select_first article sels = None \<longleftrightarrow> (\<forall>s \<in> set sels. article s = None)"
  by (induction sels) (auto split: option.splits)

lemma select_first_skip:
  "(\<forall>x \<in> set pre. article x = None) \<Longrightarrow> select_first article (pre @ sels) = select_first article sels"
  by (induction pre) auto

lemma first_image_attr_None:
  "first_image_attr t as = None \<longleftrightarrow> (\<forall>a \<in> set as. attrs t a = None)"
  by (induction as) (auto split: option.splits)

lemma first_image_attr_skip:
  "(\<forall>x \<in> set pre. attrs t x = None) \<Longrightarrow>
   first_image_attr t (pre @ as) = first_image_attr t as"
  by (induction pre) auto

text \<open>
  C5 (as amended). A chain yields the element of its first locator that matches an element
  of the fragment, whatever the text of that element, and nothing only when no locator
  matches; a first locator that matches nothing hands over to the second. The summary is
  the text of that element or the sentinel, author and date are its text or absent. The
  image is the first of the four attributes that the element of the image chain has, cut
  at its first space and put after the base URL when it is not empty and not absolute; it
  is absent exactly when no image locator matches or the element has none of the four
  attributes. A fragment without a title element gives no record, nor does one whose
  title text or link is empty, and a record that is emitted carries these values.
\<close>

theorem field_extractor_first_match:
  "(select_first article sels = None \<longleftrightarrow> (\<forall>s \<in> set sels. article s = None)) \<and>
   (\<forall>pre s post t. sels = pre @ s # post \<and> (\<forall>x \<in> set pre. article x = None) \<and> article s = Some t
       \<longrightarrow> select_first article sels = Some t) \<and>
   extract_summary article =
     (case select_first article summary_selectors of
        Some t \<Rightarrow> get_text t | None \<Rightarrow> lit ''Sin resumen disponible'') \<and>
   extract_author article = map_option get_text (select_first article author_selectors) \<and>
   extract_published_date article = map_option get_text (select_first article date_selectors) \<and>
   (extract_image_url article = None \<longleftrightarrow>
      (case select_first article image_selectors of
         Some t \<Rightarrow> \<forall>a \<in> set image_attrs. attrs t a = None | None \<Rightarrow> True)) \<and>
   (\<forall>t pre a post v.
       select_first article image_selectors = Some t \<and> image_attrs = pre @ a # post \<and>
       (\<forall>x \<in> set pre. attrs t x = None) \<and> attrs t a = Some v \<longrightarrow>
       extract_image_url article =
         Some (let u = (if 32 \<in> set v then takeWhile (\<lambda>c. c \<noteq> 32) v else v)
               in if u \<noteq> [] \<and> \<not> startswith_http u then BASE_URL @ u else u)) \<and>
   (select_first article title_selectors = None \<longrightarrow>
      process_article md5_hexdigest article = None) \<and>
   (\<forall>title_tag. select_first article title_selectors = Some title_tag \<and>
        (get_text title_tag = [] \<or> extract_link title_tag = []) \<longrightarrow>
      process_article md5_hexdigest article = None) \<and>
   (\<forall>item. process_article md5_hexdigest article = Some item \<longrightarrow>
      (\<exists>title_tag. select_first article title_selectors = Some title_tag \<and>
         title item = get_text title_tag \<and> title item \<noteq> [] \<and>
         summary item = extract_summary article \<and>
         link item = extract_link title_tag \<and> link item \<noteq> [] \<and>
         image_url item = extract_image_url article \<and>
         author item = extract_author article \<and>
         published_date item = extract_published_date article))"
proof -
  have a: "select_first article sels = None \<longleftrightarrow> (\<forall>s \<in> set sels. article s = None)"
    by (rule select_first_None)
  have b: "\<forall>pre s post t. sels = pre @ s # post \<and> (\<forall>x \<in> set pre. article x = None) \<and> article s = Some t
       \<longrightarrow> select_first article sels = Some t"
    by (auto simp: select_first_skip)
  have s: "extract_summary article =
     (case select_first article summary_selectors of
        Some t \<Rightarrow> get_text t | None \<Rightarrow> lit ''Sin resumen disponible'')"
    by (simp add: extract_summary_def)
  have au: "extract_author article = map_option get_text (select_first article author_selectors)"
    by (simp add: extract_author_def)
  have da: "extract_published_date article =
      map_option get_text (select_first article date_selectors)"
    by (simp add: extract_published_date_def)
  have c: "extract_image_url article = None \<longleftrightarrow>
      (case select_first article image_selectors of
         Some t \<Rightarrow> \<forall>a \<in> set image_attrs. attrs t a = None | None \<Rightarrow> True)"
  proof -
    have "extract_image_url article = None \<longleftrightarrow>
      (case select_first article image_selectors of
         Some t \<Rightarrow> first_image_attr t image_attrs = None | None \<Rightarrow> True)"
      by (auto simp: extract_image_url_def Let_def split: option.splits)
    then show ?thesis
      by (simp add: first_image_attr_None split: option.splits)
  qed
  have iv: "\<forall>t pre a post v.
       select_first article image_selectors = Some t \<and> image_attrs = pre @ a # post \<and>
       (\<forall>x \<in> set pre. attrs t x = None) \<and> attrs t a = Some v \<longrightarrow>
       extract_image_url article =
         Some (let u = (if 32 \<in> set v then takeWhile (\<lambda>c. c \<noteq> 32) v else v)
               in if u \<noteq> [] \<and> \<not> startswith_http u then BASE_URL @ u else u)"
  proof (intro allI impI)
    fix t pre a post v
    assume h: "select_first article image_selectors = Some t \<and> image_attrs = pre @ a # post \<and>
       (\<forall>x \<in> set pre. attrs t x = None) \<and> attrs t a = Some v"
    then have "first_image_attr t image_attrs =
        Some (if 32 \<in> set v then takeWhile (\<lambda>c. c \<noteq> 32) v else v)"
      using first_image_attr_skip[of pre t "a # post"] by simp
    then show "extract_image_url article =
         Some (let u = (if 32 \<in> set v then takeWhile (\<lambda>c. c \<noteq> 32) v else v)
               in if u \<noteq> [] \<and> \<not> startswith_http u then BASE_URL @ u else u)"
      using h by (simp add: extract_image_url_def Let_def)
  qed
  have nt: "select_first article title_selectors = None \<longrightarrow>
      process_article md5_hexdigest article = None"
    by (simp add: process_article_def)
  have et: "\<forall>title_tag. select_first article title_selectors = Some title_tag \<and>
        (get_text title_tag = [] \<or> extract_link title_tag = []) \<longrightarrow>
      process_article md5_hexdigest article = None"
    by (auto simp: process_article_def Let_def)
  have d: "\<forall>item. process_article md5_hexdigest article = Some item \<longrightarrow>
      (\<exists>title_tag. select_first article title_selectors = Some title_tag \<and>
         title item = get_text title_tag \<and> title item \<noteq> [] \<and>
         summary item = extract_summary article \<and>
         link item = extract_link title_tag \<and> link item \<noteq> [] \<and>
         image_url item = extract_image_url article \<and>
         author item = extract_author article \<and>
         published_date item = extract_published_date article)"
    by (auto simp: process_article_def Let_def NewsItem_def post_init_def
        split: option.splits if_splits sum.splits)
  show ?thesis
    by (rule conjI[OF a conjI[OF b conjI[OF s conjI[OF au conjI[OF da conjI[OF c
          conjI[OF iv conjI[OF nt conjI[OF et d]]]]]]]]])
qed

theorem field_extractor_first_match_witness:
  "article_empty_first (lit ''h2.titular a'') = None \<and>
   article_empty_first (lit ''h2 a'') =
     Some \<lparr>get_text = lit ''T'', attrs = [lit ''href'' \<mapsto> lit ''/n'']\<rparr> \<and>
   select_first article_empty_first title_selectors =
     Some \<lparr>get_text = lit ''T'', attrs = [lit ''href'' \<mapsto> lit ''/n'']\<rparr> \<and>
   extract_image_url article_empty_first = Some (BASE_URL @ lit ''/i.png'') \<and>
   map_option title (process_article (\<lambda>content. lit ''0cc1'') article_empty_first) =
     Some (lit ''T'')"
proof -
  let ?t = "\<lparr>get_text = lit ''T'', attrs = [lit ''href'' \<mapsto> lit ''/n'']\<rparr>"
  let ?img = "\<lparr>get_text = [], attrs = [lit ''data-src'' \<mapsto> lit ''/i.png 2x'']\<rparr>"
  have n: "article_empty_first (lit ''h2.titular a'') = None"
    by (simp add: article_empty_first_def lit_def)
  have m: "article_empty_first (lit ''h2 a'') = Some ?t"
    by (simp add: article_empty_first_def lit_def)
  have chain: "title_selectors =
      [lit ''h2.titular a''] @ lit ''h2 a'' #
      [lit ''h1 a'', lit ''h3 a'', lit ''.title a'', lit ''a.title'', lit ''a[title]'']"
    by (simp add: title_selectors_def)
  note second = field_extractor_first_match[of article_empty_first title_selectors,
      THEN conjunct2, THEN conjunct1, rule_format]
  have sel: "select_first article_empty_first title_selectors = Some ?t"
    by (rule second[of "[lit ''h2.titular a'']" "lit ''h2 a''" _ ?t]) (simp add: chain n m)
  have isel: "select_first article_empty_first image_selectors = Some ?img"
    by (simp add: image_selectors_def article_empty_first_def lit_def)
  have ichain: "image_attrs =
      [lit ''src''] @ lit ''data-src'' # [lit ''data-lazy-src'', lit ''data-srcset'']"
    by (simp add: image_attrs_def)
  note image = field_extractor_first_match[of article_empty_first "[]",
      THEN conjunct2, THEN conjunct2, THEN conjunct2, THEN conjunct2, THEN conjunct2,
      THEN conjunct2, THEN conjunct1, rule_format]
  have "extract_image_url article_empty_first =
      Some (let u = (if 32 \<in> set (lit ''/i.png 2x'')
                     then takeWhile (\<lambda>c. c \<noteq> 32) (lit ''/i.png 2x'') else lit ''/i.png 2x'')
            in if u \<noteq> [] \<and> \<not> startswith_http u then BASE_URL @ u else u)"
    by (rule image[of ?img "[lit ''src'']" "lit ''data-src''" _ "lit ''/i.png 2x''"])
       (simp add: isel ichain lit_def)
  then have img: "extract_image_url article_empty_first = Some (BASE_URL @ lit ''/i.png'')"
    by (simp add: Let_def lit_def startswith_http_def)
  have "map_option title (process_article (\<lambda>content. lit ''0cc1'') article_empty_first) =
     Some (lit ''T'')"
    by (simp add: process_article_def sel Let_def extract_link_def startswith_http_def
        BASE_URL_def NewsItem_def post_init_def lit_def utf8_char_def split: sum.splits)
  then show ?thesis using n m sel img by simp
qed

text \<open>
  C5 as stated fails: on the fragment above the first summary locator and the first author
  locator match elements without text, and the code returns the empty text where the chain
  of the claim returns the text of the second locator; the only date locator that matches
  has no text, and the code returns the empty text where the claim leaves the field absent.
\<close>

theorem first_match_may_be_empty:
  "extract_summary article_empty_first = [] \<and>
   extract_summary article_empty_first \<noteq> lit ''Sin resumen disponible'' \<and>
   spec_first_nonempty article_empty_first summary_selectors = Some (lit ''S'') \<and>
   extract_author article_empty_first = Some [] \<and>
   spec_first_nonempty article_empty_first author_selectors = Some (lit ''Ann'') \<and>
   extract_author article_empty_first \<noteq>
     spec_first_nonempty article_empty_first author_selectors \<and>
   extract_published_date article_empty_first = Some [] \<and>
   spec_first_nonempty article_empty_first date_selectors = None"
  by (simp add: extract_summary_def extract_author_def extract_published_date_def
      summary_selectors_def author_selectors_def date_selectors_def
      article_empty_first_def lit_def)


section \<open>Properties of the materializer\<close>

lemma digits_value: "foldl (\<lambda>a c. 10 * a + (c - 48)) 0 (digits n) = n"
proof (induction n rule: digits.induct)
  case (1 n)
  show ?case
  proof (cases "n < 10")
    case True
    then show ?thesis by (subst digits.simps) simp
  next
    case False
    then show ?thesis using "1.IH" by (subst digits.simps) simp
  qed
qed

lemma digits_inj: "digits m = digits n \<Longrightarrow> m = n"
  by (metis digits_value)

lemma str_int_inj: "0 \<le> i \<Longrightarrow> 0 \<le> j \<Longrightarrow> str_int i = str_int j \<Longrightarrow> i = j"
  using digits_inj[of "nat i" "nat j"] by (simp add: str_int_def)

lemma versioned_dir_inj:
  "0 \<le> i \<Longrightarrow> 0 \<le> j \<Longrightarrow> versioned_dir date_str i = versioned_dir date_str j \<Longrightarrow> i = j"
  using str_int_inj[of i j] by (simp add: versioned_dir_def)


lemma probe_free: "fs d = None \<Longrightarrow> probe_date_dir fs date_str d v = Some d"
  by (subst probe_date_dir.simps) simp

lemma probe_step:
  "fs d \<noteq> None \<Longrightarrow>
   probe_date_dir fs date_str d v = probe_date_dir fs date_str (versioned_dir date_str v) (v + 1)"
  by (subst probe_date_dir.simps) simp

lemma probe_run:
  "fs d \<noteq> None \<Longrightarrow> (\<forall>j<m. fs (versioned_dir date_str (v + int j)) \<noteq> None) \<Longrightarrow>
   fs (versioned_dir date_str (v + int m)) = None \<Longrightarrow>
   probe_date_dir fs date_str d v = Some (versioned_dir date_str (v + int m))"
proof (induction m arbitrary: d v)
  case 0
  then show ?case by (simp add: probe_step probe_free)
next
  case (Suc m)
  have occupied: "fs (versioned_dir date_str v) \<noteq> None"
    using Suc.prems(2)[rule_format, of 0] by simp
  have rest: "\<forall>j<m. fs (versioned_dir date_str (v + 1 + int j)) \<noteq> None"
  proof (intro allI impI)
    fix j assume "j < m"
    then show "fs (versioned_dir date_str (v + 1 + int j)) \<noteq> None"
      using Suc.prems(2)[rule_format, of "Suc j"] by (simp add: add.assoc)
  qed
  have free: "fs (versioned_dir date_str (v + 1 + int m)) = None"
  proof -
    have "v + 1 + int m = v + int (Suc m)" by simp
    then show ?thesis using Suc.prems(3) by (simp only:)
  qed
  have "probe_date_dir fs date_str d v =
        probe_date_dir fs date_str (versioned_dir date_str v) (v + 1)"
    using Suc.prems(1) by (rule probe_step)
  also have "\<dots> = Some (versioned_dir date_str (v + 1 + int m))"
    using Suc.IH[OF occupied rest free] .
  also have "v + 1 + int m = v + int (Suc m)" by simp
  finally show ?case .
qed

lemma free_version_exists:
  assumes "finite (dom fs)"
  shows "\<exists>m. fs (versioned_dir date_str (1 + int m)) = None"
proof (rule ccontr)
  assume "\<not> ?thesis"
  then have "range (\<lambda>m. versioned_dir date_str (1 + int m)) \<subseteq> dom fs" by auto
  then have "finite (range (\<lambda>m. versioned_dir date_str (1 + int m)))"
    using assms finite_subset by blast
  moreover have "inj (\<lambda>m. versioned_dir date_str (1 + int m))"
  proof (rule injI)
    fix x y :: nat
    assume "versioned_dir date_str (1 + int x) = versioned_dir date_str (1 + int y)"
    then have "1 + int x = 1 + int y" by (intro versioned_dir_inj[of _ _ date_str]) simp_all
    then show "x = y" by simp
  qed
  ultimately have "finite (UNIV :: nat set)" by (rule finite_imageD)
  then show False by simp
qed

lemma probe_total:
  assumes fin: "finite (dom fs)"
  shows "\<exists>d. probe_date_dir fs date_str (CONTENT_DIR @ [date_str]) 1 = Some d \<and> fs d = None \<and>
     (d = CONTENT_DIR @ [date_str] \<or>
      (fs (CONTENT_DIR @ [date_str]) \<noteq> None \<and>
       (\<exists>k\<ge>1. d = versioned_dir date_str k \<and>
          (\<forall>j. 1 \<le> j \<and> j < k \<longrightarrow> fs (versioned_dir date_str j) \<noteq> None))))"
proof (cases "fs (CONTENT_DIR @ [date_str]) = None")
  case True
  then show ?thesis by (simp add: probe_free)
next
  case False
  define P where "P m \<longleftrightarrow> fs (versioned_dir date_str (1 + int m)) = None" for m
  have ex: "\<exists>m. P m" using free_version_exists[OF fin] by (simp add: P_def)
  define m where "m = (LEAST m. P m)"
  have free: "P m" unfolding m_def using ex by (metis LeastI)
  have occ: "\<forall>j<m. \<not> P j" unfolding m_def using not_less_Least by blast
  have run: "probe_date_dir fs date_str (CONTENT_DIR @ [date_str]) 1 =
             Some (versioned_dir date_str (1 + int m))"
    using False occ free by (intro probe_run) (auto simp: P_def)
  have below: "\<forall>j. 1 \<le> j \<and> j < 1 + int m \<longrightarrow> fs (versioned_dir date_str j) \<noteq> None"
  proof (intro allI impI)
    fix j :: int assume j: "1 \<le> j \<and> j < 1 + int m"
    then have "nat (j - 1) < m" by linarith
    then have "\<not> P (nat (j - 1))" using occ by blast
    then show "fs (versioned_dir date_str j) \<noteq> None" using j by (simp add: P_def)
  qed
  have k: "\<exists>k\<ge>1. versioned_dir date_str (1 + int m) = versioned_dir date_str k \<and>
          (\<forall>j. 1 \<le> j \<and> j < k \<longrightarrow> fs (versioned_dir date_str j) \<noteq> None)"
    using below by (intro exI[of _ "1 + int m"]) simp
  have "fs (versioned_dir date_str (1 + int m)) = None" using free by (simp add: P_def)
  then show ?thesis
    using run False k by blast
qed














lemma write_text_fst: "\<exists>t. fst (write_text fs p chunks) = fs(p \<mapsto> File (Text t))"
  unfolding write_text_def by (intro exI[of _ "concat (takeWhile encodable chunks)"]) simp


lemma download_image_cases:
  "download_image http_content lower strip_symbols item out fs = (fs, None) \<or>
   (\<exists>name c. download_image http_content lower strip_symbols item out fs =
      (write_file fs (out @ [lit ''image_'' @ name]) (Binary c), Some (out @ [lit ''image_'' @ name])))"
  by (auto simp: download_image_def Let_def split: option.splits sum.splits)

text \<open>The states a pass can leave, whether it ends with an exception or not.\<close>

lemma save_item_form:
  "\<exists>t1 t2.
     fst (save_item H L S cfg d (i, item, cap) fs) =
       (mkdir_parents fs (news_dir_of d i))
         (news_dir_of d i @ [lit ''caption.txt''] \<mapsto> File (Text t1)) \<or>
     fst (save_item H L S cfg d (i, item, cap) fs) =
       (mkdir_parents fs (news_dir_of d i))
         (news_dir_of d i @ [lit ''caption.txt''] \<mapsto> File (Text t1),
          news_dir_of d i @ [lit ''description.txt''] \<mapsto> File (Text t2)) \<or>
     (\<exists>name c. fst (save_item H L S cfg d (i, item, cap) fs) =
       (mkdir_parents fs (news_dir_of d i))
         (news_dir_of d i @ [lit ''caption.txt''] \<mapsto> File (Text t1),
          news_dir_of d i @ [lit ''description.txt''] \<mapsto> File (Text t2),
          news_dir_of d i @ [lit ''image_'' @ name] \<mapsto> File (Binary c)))"
proof -
  let ?nd = "news_dir_of d i"
  let ?t1 = "concat (takeWhile encodable [cap])"
  let ?t2 = "concat (takeWhile encodable (description_chunks cfg item))"
  let ?fs1 = "(mkdir_parents fs ?nd)(?nd @ [lit ''caption.txt''] \<mapsto> File (Text ?t1))"
  let ?fs2 = "?fs1(?nd @ [lit ''description.txt''] \<mapsto> File (Text ?t2))"
  have c1: "fst (save_item H L S cfg d (i, item, cap) fs) = ?fs1" if "\<not> encodable cap"
    using that by (simp add: save_item_def Let_def write_text_def)
  have c2: "fst (save_item H L S cfg d (i, item, cap) fs) = ?fs2"
    if "encodable cap" "\<not> list_all encodable (description_chunks cfg item)"
    using that by (simp add: save_item_def Let_def write_text_def)
  have c3: "fst (save_item H L S cfg d (i, item, cap) fs) =
            fst (download_image H L S item ?nd ?fs2)"
    if "encodable cap" "list_all encodable (description_chunks cfg item)"
    using that by (simp add: save_item_def Let_def write_text_def)
  consider (a) "fst (save_item H L S cfg d (i, item, cap) fs) = ?fs1"
    | (b) "fst (save_item H L S cfg d (i, item, cap) fs) = ?fs2"
    | (c) "fst (save_item H L S cfg d (i, item, cap) fs) =
            fst (download_image H L S item ?nd ?fs2)"
    using c1 c2 c3 by blast
  then show ?thesis
  proof cases
    case a
    then show ?thesis by blast
  next
    case b
    then show ?thesis by blast
  next
    case c
    from download_image_cases[of H L S item ?nd ?fs2] show ?thesis
    proof
      assume "download_image H L S item ?nd ?fs2 = (?fs2, None)"
      then show ?thesis using c by auto
    next
      assume "\<exists>name c. download_image H L S item ?nd ?fs2 =
        (write_file ?fs2 (?nd @ [lit ''image_'' @ name]) (Binary c),
         Some (?nd @ [lit ''image_'' @ name]))"
      then obtain name b where "download_image H L S item ?nd ?fs2 =
        (write_file ?fs2 (?nd @ [lit ''image_'' @ name]) (Binary b),
         Some (?nd @ [lit ''image_'' @ name]))" by blast
      then have "fst (save_item H L S cfg d (i, item, cap) fs) =
          ?fs2(?nd @ [lit ''image_'' @ name] \<mapsto> File (Binary b))"
        using c by (simp add: write_file_def)
      then show ?thesis by blast
    qed
  qed
qed


lemma save_item_changes:
  "fst (save_item H L S cfg d (i, item, cap) fs) q \<noteq> fs q \<Longrightarrow>
   (q \<noteq> [] \<and> prefix q (news_dir_of d i) \<and> fs q = None) \<or>
   q = news_dir_of d i @ [lit ''caption.txt''] \<or> q = news_dir_of d i @ [lit ''description.txt''] \<or>
   (\<exists>name. q = news_dir_of d i @ [lit ''image_'' @ name])"
  using save_item_form[of H L S cfg d i item cap fs]
  by (auto simp: mkdir_parents_def split: if_splits)

lemma save_item_keeps:
  assumes "fs q \<noteq> None" "length q \<le> length d + 1"
  shows "fst (save_item H L S cfg d e fs) q = fs q"
proof (rule ccontr)
  obtain i item cap where e: "e = (i, item, cap)" by (cases e)
  assume "fst (save_item H L S cfg d e fs) q \<noteq> fs q"
  then have "(q \<noteq> [] \<and> prefix q (news_dir_of d i) \<and> fs q = None) \<or>
     q = news_dir_of d i @ [lit ''caption.txt''] \<or>
     q = news_dir_of d i @ [lit ''description.txt''] \<or>
     (\<exists>name. q = news_dir_of d i @ [lit ''image_'' @ name])"
    unfolding e by (rule save_item_changes)
  then show False using assms by (auto simp: news_dir_of_def)
qed

lemma save_item_outside:
  assumes "\<not> prefix (news_dir_of d i) q" "q = [] \<or> \<not> prefix q d \<or> fs q \<noteq> None"
  shows "fst (save_item H L S cfg d (i, item, cap) fs) q = fs q"
proof (rule ccontr)
  assume "fst (save_item H L S cfg d (i, item, cap) fs) q \<noteq> fs q"
  then have "(q \<noteq> [] \<and> prefix q (news_dir_of d i) \<and> fs q = None) \<or>
     q = news_dir_of d i @ [lit ''caption.txt''] \<or>
     q = news_dir_of d i @ [lit ''description.txt''] \<or>
     (\<exists>name. q = news_dir_of d i @ [lit ''image_'' @ name])"
    by (rule save_item_changes)
  then show False using assms by (auto simp: news_dir_of_def)
qed






lemma save_item_error: "snd (save_item H L S cfg d e fs) = None \<or>
   snd (save_item H L S cfg d e fs) = Some UnicodeEncodeError"
  by (cases e) (simp add: save_item_def Let_def write_text_def)


text \<open>
  The passes that were carried out, one after the other. The loop is this fold over all
  entries when no write raises, and over the entries before the failing one, followed by
  the part of the failing pass, when one does.
\<close>

lemma fold_keeps:
  "fs q \<noteq> None \<Longrightarrow> length q \<le> length d + 1 \<Longrightarrow>
   fold (\<lambda>e fs. fst (save_item H L S cfg d e fs)) es fs q = fs q"
  by (induction es arbitrary: fs) (simp_all add: save_item_keeps)

lemma fold_outside:
  "(\<forall>i. k \<le> i \<and> i < k + length zs \<longrightarrow> \<not> prefix (news_dir_of d i) q) \<Longrightarrow>
   q = [] \<or> \<not> prefix q d \<or> fs q \<noteq> None \<Longrightarrow>
   fold (\<lambda>e fs. fst (save_item H L S cfg d e fs)) (enumerate k zs) fs q = fs q"
proof (induction zs arbitrary: k fs)
  case Nil
  then show ?case by simp
next
  case (Cons z zs)
  obtain item cap where z: "z = (item, cap)" by (cases z)
  let ?F = "\<lambda>e fs. fst (save_item H L S cfg d e fs)"
  have first: "?F (k, item, cap) fs q = fs q"
    using Cons.prems by (intro save_item_outside) auto
  have "fold ?F (enumerate (Suc k) zs) (?F (k, item, cap) fs) q = ?F (k, item, cap) fs q"
    using Cons.prems first by (intro Cons.IH) auto
  then show ?case using first by (simp add: z)
qed




lemma take_enumerate: "take n (enumerate k zs) = enumerate k (take n zs)"
  by (induction zs arbitrary: n k) (auto simp: take_Cons split: nat.splits)

lemma save_items_fold_take:
  "\<exists>n. fst (save_items H L S cfg d es fs) =
         fold (\<lambda>e fs. fst (save_item H L S cfg d e fs)) (take n es) fs"
proof (induction es arbitrary: fs)
  case Nil
  then show ?case by simp
next
  case (Cons e es)
  let ?F = "\<lambda>e fs. fst (save_item H L S cfg d e fs)"
  obtain fs1 r where s: "save_item H L S cfg d e fs = (fs1, r)" by (cases "save_item H L S cfg d e fs")
  show ?case
  proof (cases r)
    case None
    obtain n where "fst (save_items H L S cfg d es fs1) = fold ?F (take n es) fs1"
      using Cons.IH by blast
    then have "fst (save_items H L S cfg d (e # es) fs) = fold ?F (take (Suc n) (e # es)) fs"
      using s None by simp
    then show ?thesis by blast
  next
    case (Some err)
    then have "fst (save_items H L S cfg d (e # es) fs) = fold ?F (take (Suc 0) (e # es)) fs"
      using s by simp
    then show ?thesis by blast
  qed
qed


lemma save_items_error:
  "snd (save_items H L S cfg d es fs) = None \<or>
   snd (save_items H L S cfg d es fs) = Some UnicodeEncodeError"
proof (induction es arbitrary: fs)
  case Nil
  then show ?case by simp
next
  case (Cons e es)
  obtain fs1 r where s: "save_item H L S cfg d e fs = (fs1, r)" by (cases "save_item H L S cfg d e fs")
  show ?case
    using s save_item_error[of H L S cfg d e fs] Cons.IH[of fs1]
    by (cases r) simp_all
qed

lemma probe_shape:
  assumes "finite (dom fs)"
  shows "\<exists>d x. probe_date_dir fs date_str (CONTENT_DIR @ [date_str]) 1 = Some d \<and>
           d = CONTENT_DIR @ [x] \<and> fs d = None"
  using probe_total[OF assms, of date_str] by (auto simp: versioned_dir_def)

lemma finite_mkdir_parents: "finite (dom fs) \<Longrightarrow> finite (dom (mkdir_parents fs p))"
proof -
  assume fin: "finite (dom fs)"
  have "dom (mkdir_parents fs p) \<subseteq> dom fs \<union> set (prefixes p)"
    by (auto simp: mkdir_parents_def dom_def in_set_prefixes split: if_splits)
  then show ?thesis using fin finite_subset by blast
qed

lemma finite_save_item:
  "finite (dom fs) \<Longrightarrow> finite (dom (fst (save_item H L S cfg d e fs)))"
proof -
  assume fin: "finite (dom fs)"
  obtain i item cap where e: "e = (i, item, cap)" by (cases e)
  show ?thesis
    using save_item_form[of H L S cfg d i item cap fs] finite_mkdir_parents[OF fin]
    unfolding e by auto
qed

lemma finite_fold:
  "finite (dom fs) \<Longrightarrow>
   finite (dom (fold (\<lambda>e fs. fst (save_item H L S cfg d e fs)) es fs))"
  by (induction es arbitrary: fs) (simp_all add: finite_save_item)

text \<open>
  The states a materialization can leave: the new directory with the JSON file, the
  passes that were carried out, and the captions file if the loop was completed.
\<close>

lemma save_content_form:
  assumes p: "probe_date_dir fs date_str (CONTENT_DIR @ [date_str]) 1 = Some d"
  shows "\<exists>fs' r n j.
     save_content H L S cfg items caps date_str fs = Some (fs', d, r) \<and>
     (r = Inl UnicodeEncodeError \<or> r = Inr (d @ [lit ''all_captions.txt''], d)) \<and>
     (fs' = fold (\<lambda>e fs. fst (save_item H L S cfg d e fs))
              (enumerate 0 (take n (zip items caps)))
              ((mkdir_parents fs d)(d @ [lit ''news.json''] \<mapsto> File j)) \<or>
      (\<exists>t. fs' = (fold (\<lambda>e fs. fst (save_item H L S cfg d e fs))
              (enumerate 0 (take n (zip items caps)))
              ((mkdir_parents fs d)(d @ [lit ''news.json''] \<mapsto> File j)))
              (d @ [lit ''all_captions.txt''] \<mapsto> File (Text t))))"
proof -
  let ?F = "\<lambda>e fs. fst (save_item H L S cfg d e fs)"
  let ?zs = "zip items caps"
  let ?fs1 = "mkdir_parents fs d"
  let ?G = "\<lambda>n j. fold ?F (enumerate 0 (take n ?zs)) (?fs1(d @ [lit ''news.json''] \<mapsto> File j))"
  let ?ac = "d @ [lit ''all_captions.txt'']"
  show ?thesis
  proof (cases "list_all (\<lambda>item. list_all encodable (item_strings item)) items")
    case False
    then have "save_content H L S cfg items caps date_str fs =
        Some (?G 0 (JsonPrefix items), d, Inl UnicodeEncodeError)"
      using p by (simp add: save_content_def Let_def write_json_def)
    then show ?thesis by blast
  next
    case True
    let ?fs2 = "?fs1(d @ [lit ''news.json''] \<mapsto> File (Json items))"
    have wj: "write_json ?fs1 (d @ [lit ''news.json'']) items = (?fs2, None)"
      using True by (simp add: write_json_def)
    obtain n where n: "fst (save_items H L S cfg d (enumerate 0 ?zs) ?fs2) =
        fold ?F (take n (enumerate 0 ?zs)) ?fs2"
      using save_items_fold_take by blast
    have tk: "take n (enumerate 0 ?zs) = enumerate 0 (take n ?zs)"
      by (rule take_enumerate)
    obtain fs3 r3 where si: "save_items H L S cfg d (enumerate 0 ?zs) ?fs2 = (fs3, r3)"
      by (cases "save_items H L S cfg d (enumerate 0 ?zs) ?fs2")
    have fs3: "fs3 = ?G n (Json items)" using n si tk by simp
    show ?thesis
    proof (cases r3)
      case (Some err)
      then have "err = UnicodeEncodeError"
        using save_items_error[of H L S cfg d "enumerate 0 ?zs" ?fs2] si by simp
      then have "save_content H L S cfg items caps date_str fs =
          Some (?G n (Json items), d, Inl UnicodeEncodeError)"
        using p wj si Some fs3 by (simp add: save_content_def Let_def)
      then show ?thesis by blast
    next
      case None
      let ?t = "concat (takeWhile encodable (caption_blocks caps))"
      have "save_content H L S cfg items caps date_str fs =
          Some ((?G n (Json items))(?ac \<mapsto> File (Text ?t)), d,
            if list_all encodable (caption_blocks caps) then Inr (?ac, d)
            else Inl UnicodeEncodeError)"
        using p wj si None fs3 by (simp add: save_content_def Let_def write_text_def)
      then show ?thesis by (cases "list_all encodable (caption_blocks caps)") auto
    qed
  qed
qed



lemma finite_save_content:
  assumes fin: "finite (dom fs)"
    and sc: "save_content H L S cfg items caps date_str fs = Some (fs', d, r)"
  shows "finite (dom fs')"
proof -
  have p: "probe_date_dir fs date_str (CONTENT_DIR @ [date_str]) 1 = Some d"
    using sc by (auto simp: save_content_def Let_def split: option.splits prod.splits)
  let ?F = "\<lambda>e fs. fst (save_item H L S cfg d e fs)"
  obtain n j where fs': "fs' = fold ?F (enumerate 0 (take n (zip items caps)))
              ((mkdir_parents fs d)(d @ [lit ''news.json''] \<mapsto> File j)) \<or>
      (\<exists>t. fs' = (fold ?F (enumerate 0 (take n (zip items caps)))
              ((mkdir_parents fs d)(d @ [lit ''news.json''] \<mapsto> File j)))
              (d @ [lit ''all_captions.txt''] \<mapsto> File (Text t)))"
    using save_content_form[OF p, of H L S cfg items caps] sc by auto
  have "finite (dom ((mkdir_parents fs d)(d @ [lit ''news.json''] \<mapsto> File j)))"
    using finite_mkdir_parents[OF fin, of d] by simp
  then have "finite (dom (fold ?F (enumerate 0 (take n (zip items caps)))
              ((mkdir_parents fs d)(d @ [lit ''news.json''] \<mapsto> File j))))"
    by (rule finite_fold)
  then show ?thesis using fs' by auto
qed

lemma save_content_frame:
  assumes sc: "save_content H L S cfg items caps date_str fs = Some (fs', d, r)"
    and q: "\<not> prefix q d" "\<not> prefix d q"
  shows "fs' q = fs q"
proof -
  have p: "probe_date_dir fs date_str (CONTENT_DIR @ [date_str]) 1 = Some d"
    using sc by (auto simp: save_content_def Let_def split: option.splits prod.splits)
  let ?F = "\<lambda>e fs. fst (save_item H L S cfg d e fs)"
  obtain n j where fs': "fs' = fold ?F (enumerate 0 (take n (zip items caps)))
              ((mkdir_parents fs d)(d @ [lit ''news.json''] \<mapsto> File j)) \<or>
      (\<exists>t. fs' = (fold ?F (enumerate 0 (take n (zip items caps)))
              ((mkdir_parents fs d)(d @ [lit ''news.json''] \<mapsto> File j)))
              (d @ [lit ''all_captions.txt''] \<mapsto> File (Text t)))"
    using save_content_form[OF p, of H L S cfg items caps] sc by auto
  let ?fs2 = "(mkdir_parents fs d)(d @ [lit ''news.json''] \<mapsto> File j)"
  have 2: "?fs2 q = fs q"
    using q by (auto simp: mkdir_parents_def)
  have "\<forall>i. 0 \<le> i \<and> i < 0 + length (take n (zip items caps)) \<longrightarrow>
          \<not> prefix (news_dir_of d i) q"
    using q(2) by (auto simp: news_dir_of_def dest: append_prefixD)
  then have 3: "fold ?F (enumerate 0 (take n (zip items caps))) ?fs2 q = ?fs2 q"
    using q(1) by (intro fold_outside) auto
  show ?thesis
    using q 2 3 fs' by auto
qed

lemma save_content_dir:
  assumes sc: "save_content H L S cfg items caps date_str fs = Some (fs', d, r)"
    and free: "fs d = None" and ne: "d \<noteq> []"
  shows "fs' d = Some Dir"
proof -
  have p: "probe_date_dir fs date_str (CONTENT_DIR @ [date_str]) 1 = Some d"
    using sc by (auto simp: save_content_def Let_def split: option.splits prod.splits)
  let ?F = "\<lambda>e fs. fst (save_item H L S cfg d e fs)"
  obtain n j where fs': "fs' = fold ?F (enumerate 0 (take n (zip items caps)))
              ((mkdir_parents fs d)(d @ [lit ''news.json''] \<mapsto> File j)) \<or>
      (\<exists>t. fs' = (fold ?F (enumerate 0 (take n (zip items caps)))
              ((mkdir_parents fs d)(d @ [lit ''news.json''] \<mapsto> File j)))
              (d @ [lit ''all_captions.txt''] \<mapsto> File (Text t)))"
    using save_content_form[OF p, of H L S cfg items caps] sc by auto
  let ?fs2 = "(mkdir_parents fs d)(d @ [lit ''news.json''] \<mapsto> File j)"
  have 2: "?fs2 d = Some Dir"
    using free ne by (simp add: mkdir_parents_def)
  then have "fold ?F (enumerate 0 (take n (zip items caps))) ?fs2 d = Some Dir"
    using fold_keeps[of ?fs2 d d] by simp
  then show ?thesis using fs' by auto
qed


text \<open>
  C3. From any finite state of the file system, a materialization ends (with the pair it
  returns or with the exception of a write) and its directory did not exist before: it is
  the directory of the date if that is unused, and otherwise the first of \<^verbatim>\<open>_V1\<close>,
  \<^verbatim>\<open>_V2\<close>, ... that is unused, all earlier ones being in use. A second materialization
  for the same date, run on the state the first one leaves, ends in a directory different
  from the first, and leaves every entry at or below the first directory as it is. When
  neither the date directory nor \<^verbatim>\<open>_V1\<close> existed, the two directories are the date and
  the date with \<^verbatim>\<open>_V1\<close>.
\<close>

theorem save_content_fresh_directory:
  assumes fin: "finite (dom fs)"
  shows "\<exists>fs1 d1 r1 fs2 d2 r2.
    save_content H L S cfg items caps date_str fs = Some (fs1, d1, r1) \<and>
    save_content H' L' S' cfg' items' caps' date_str fs1 = Some (fs2, d2, r2) \<and>
    (r1 = Inl UnicodeEncodeError \<or> r1 = Inr (d1 @ [lit ''all_captions.txt''], d1)) \<and>
    (r2 = Inl UnicodeEncodeError \<or> r2 = Inr (d2 @ [lit ''all_captions.txt''], d2)) \<and>
    fs d1 = None \<and> fs1 d1 = Some Dir \<and> fs1 d2 = None \<and> fs2 d2 = Some Dir \<and> d1 \<noteq> d2 \<and>
    (\<forall>q. prefix d1 q \<longrightarrow> fs2 q = fs1 q) \<and>
    (d1 = CONTENT_DIR @ [date_str] \<or>
     (fs (CONTENT_DIR @ [date_str]) \<noteq> None \<and>
      (\<exists>k\<ge>1. d1 = versioned_dir date_str k \<and>
         (\<forall>j. 1 \<le> j \<and> j < k \<longrightarrow> fs (versioned_dir date_str j) \<noteq> None)))) \<and>
    (fs (CONTENT_DIR @ [date_str]) = None \<and> fs (versioned_dir date_str 1) = None \<longrightarrow>
       d1 = CONTENT_DIR @ [date_str] \<and> d2 = versioned_dir date_str 1)"
proof -
  obtain d1 where p1: "probe_date_dir fs date_str (CONTENT_DIR @ [date_str]) 1 = Some d1"
    and free1: "fs d1 = None"
    and order1: "d1 = CONTENT_DIR @ [date_str] \<or>
     (fs (CONTENT_DIR @ [date_str]) \<noteq> None \<and>
      (\<exists>k\<ge>1. d1 = versioned_dir date_str k \<and>
         (\<forall>j. 1 \<le> j \<and> j < k \<longrightarrow> fs (versioned_dir date_str j) \<noteq> None)))"
    using probe_total[OF fin, of date_str] by blast
  obtain x1 where x1: "d1 = CONTENT_DIR @ [x1]"
    using order1 by (auto simp: versioned_dir_def)
  obtain fs1 r1 where sc1: "save_content H L S cfg items caps date_str fs = Some (fs1, d1, r1)"
    and r1: "r1 = Inl UnicodeEncodeError \<or> r1 = Inr (d1 @ [lit ''all_captions.txt''], d1)"
    using save_content_form[OF p1, of H L S cfg items caps] by blast
  have fin1: "finite (dom fs1)" using fin sc1 by (rule finite_save_content)
  have dir1: "fs1 d1 = Some Dir" using sc1 free1 by (rule save_content_dir) (simp add: x1)
  obtain d2 x2 where p2: "probe_date_dir fs1 date_str (CONTENT_DIR @ [date_str]) 1 = Some d2"
    and x2: "d2 = CONTENT_DIR @ [x2]" and free2: "fs1 d2 = None"
    using probe_shape[OF fin1, of date_str] by blast
  obtain fs2 r2 where
    sc2: "save_content H' L' S' cfg' items' caps' date_str fs1 = Some (fs2, d2, r2)"
    and r2: "r2 = Inl UnicodeEncodeError \<or> r2 = Inr (d2 @ [lit ''all_captions.txt''], d2)"
    using save_content_form[OF p2, of H' L' S' cfg' items' caps'] by blast
  have dir2: "fs2 d2 = Some Dir" using sc2 free2 by (rule save_content_dir) (simp add: x2)
  have neq: "d1 \<noteq> d2" using dir1 free2 by auto
  have frame: "\<forall>q. prefix d1 q \<longrightarrow> fs2 q = fs1 q"
  proof (intro allI impI)
    fix q assume q: "prefix d1 q"
    have a: "\<not> prefix q d2"
    proof
      assume "prefix q d2"
      then have "prefix d1 d2" using q by (rule prefix_order.trans[rotated])
      then show False using neq by (simp add: x1 x2)
    qed
    have b: "\<not> prefix d2 q"
    proof
      assume "prefix d2 q"
      then have "prefix d1 d2 \<or> prefix d2 d1" using q prefix_same_cases by blast
      then show False using neq by (auto simp: x1 x2)
    qed
    show "fs2 q = fs1 q" using sc2 a b by (rule save_content_frame)
  qed
  have start: "fs (CONTENT_DIR @ [date_str]) = None \<and> fs (versioned_dir date_str 1) = None \<longrightarrow>
       d1 = CONTENT_DIR @ [date_str] \<and> d2 = versioned_dir date_str 1"
  proof
    assume a: "fs (CONTENT_DIR @ [date_str]) = None \<and> fs (versioned_dir date_str 1) = None"
    then have d1: "d1 = CONTENT_DIR @ [date_str]" using p1 by (simp add: probe_free)
    have "fs1 (versioned_dir date_str 1) = fs (versioned_dir date_str 1)"
      using sc1 by (rule save_content_frame) (simp_all add: d1 versioned_dir_def lit_def)
    then have "probe_date_dir fs1 date_str (CONTENT_DIR @ [date_str]) 1 =
               Some (versioned_dir date_str 1)"
      using a dir1 d1 by (simp add: probe_step probe_free)
    then show "d1 = CONTENT_DIR @ [date_str] \<and> d2 = versioned_dir date_str 1"
      using d1 p2 by simp
  qed
  show ?thesis
    by (rule exI[of _ fs1], rule exI[of _ d1], rule exI[of _ r1],
        rule exI[of _ fs2], rule exI[of _ d2], rule exI[of _ r2])
       (use sc1 sc2 r1 r2 free1 dir1 free2 dir2 neq frame order1 start in blast)
qed

theorem save_content_fresh_directory_witness:
  "finite (dom (Map.empty :: filesystem)) \<and>
   (\<exists>fs1 r1 fs2 r2.
      save_content (\<lambda>url. Inl RequestException) (\<lambda>s. s) (\<lambda>s. s) (config scraper_fresh)
        [item_A] [lit ''first''] (lit ''2024-06-01'') Map.empty =
        Some (fs1, CONTENT_DIR @ [lit ''2024-06-01''], r1) \<and>
      save_content (\<lambda>url. Inl RequestException) (\<lambda>s. s) (\<lambda>s. s) (config scraper_fresh)
        [item_B] [lit ''second''] (lit ''2024-06-01'') fs1 =
        Some (fs2, CONTENT_DIR @ [lit ''2024-06-01_V1''], r2) \<and>
      fs1 (CONTENT_DIR @ [lit ''2024-06-01'']) = Some Dir \<and>
      fs1 (CONTENT_DIR @ [lit ''2024-06-01_V1'']) = None \<and>
      fs2 (CONTENT_DIR @ [lit ''2024-06-01_V1'']) = Some Dir \<and>
      fs2 (CONTENT_DIR @ [lit ''2024-06-01'', lit ''news.json'']) =
        fs1 (CONTENT_DIR @ [lit ''2024-06-01'', lit ''news.json'']))"
proof -
  have fin: "finite (dom (Map.empty :: filesystem))" by simp
  have v1: "versioned_dir (lit ''2024-06-01'') 1 = CONTENT_DIR @ [lit ''2024-06-01_V1'']"
    by (simp add: versioned_dir_def str_int_def digits.simps lit_def)
  obtain fs1 d1 r1 fs2 d2 r2 where
    sc1: "save_content (\<lambda>url. Inl RequestException) (\<lambda>s. s) (\<lambda>s. s) (config scraper_fresh)
        [item_A] [lit ''first''] (lit ''2024-06-01'') Map.empty = Some (fs1, d1, r1)"
    and sc2: "save_content (\<lambda>url. Inl RequestException) (\<lambda>s. s) (\<lambda>s. s) (config scraper_fresh)
        [item_B] [lit ''second''] (lit ''2024-06-01'') fs1 = Some (fs2, d2, r2)"
    and dirs: "fs1 d1 = Some Dir" "fs1 d2 = None" "fs2 d2 = Some Dir"
    and frame: "\<forall>q. prefix d1 q \<longrightarrow> fs2 q = fs1 q"
    and start: "Map.empty (CONTENT_DIR @ [lit ''2024-06-01'']) = (None :: node option) \<and>
       Map.empty (versioned_dir (lit ''2024-06-01'') 1) = (None :: node option) \<longrightarrow>
       d1 = CONTENT_DIR @ [lit ''2024-06-01''] \<and> d2 = versioned_dir (lit ''2024-06-01'') 1"
    using save_content_fresh_directory[OF fin,
        of "\<lambda>url. Inl RequestException" "\<lambda>s. s" "\<lambda>s. s" "config scraper_fresh"
           "[item_A]" "[lit ''first'']" "lit ''2024-06-01''"
           "\<lambda>url. Inl RequestException" "\<lambda>s. s" "\<lambda>s. s" "config scraper_fresh"
           "[item_B]" "[lit ''second'']"]
    by blast
  have d1: "d1 = CONTENT_DIR @ [lit ''2024-06-01'']" and d2: "d2 = CONTENT_DIR @ [lit ''2024-06-01_V1'']"
    using start v1 by simp_all
  have "fs2 (CONTENT_DIR @ [lit ''2024-06-01'', lit ''news.json'']) =
        fs1 (CONTENT_DIR @ [lit ''2024-06-01'', lit ''news.json''])"
    using frame d1 by simp
  then show ?thesis
    using fin sc1 sc2 dirs d1 d2 by blast
qed






end
